theory Spec2Isabelle
  imports Main "HOL-Library.Sublist" "HOL-Library.AList"
begin

section \<open>Conventions of the embedding\<close>

text \<open>
  The three scripts are embedded function by function, with the source's names.
  Python \<open>str\<close> values are \<open>string\<close>s: lists of characters, a character being one of
  the 256 code points from U+0000 to U+00FF (ASCII and Latin-1), so that every theorem
  about strings is a theorem about the strings of these code points, and says nothing
  about a string with a code point above U+00FF.
  Python \<open>int\<close>s are \<open>int\<close>; a \<open>dict\<close> whose insertion order is observable is an
  association list. What the scripts obtain from the network (an HTTP response, the
  elements a BeautifulSoup query returns) is an input of the model: a datatype value
  holding exactly the results of the queries the source makes. Exceptions are
  constructors of those inputs and every \<open>try/except\<close> of the source is a case
  distinction of the model. Library functions whose code is not part of the scripts
  (\<open>urljoin\<close>, \<open>urlparse(...).path\<close>) are parameters of the functions using them.
  \<open>print\<close> and \<open>time.sleep\<close> have no effect on any returned value and are left out.
  An exception that no \<open>try\<close> of the scripts catches ends the run: a function that can
  meet one returns a sum, \<open>Inl\<close> the exception.
\<close>

section \<open>Review Lister (phone\_review\_url\_scraper.py)\<close>

subsection \<open>scrape\_single\_page\<close>

text \<open>
  One matched review item, as the queries of the loop body see it: the title element
  (its stripped text and the \<open>href\<close> of its link when that is present and non-empty),
  the first \<open>img\<close> (\<open>src\<close> and \<open>alt\<close>, \<open>''''\<close> when missing), the date element's text
  and the first paragraph's text.
\<close>

record review_item =
  item_title :: "(string \<times> string option) option"
  item_img :: "(string \<times> string) option"
  item_date :: "string option"
  item_snippet :: "string option"

text \<open>
  A fetched listing page: the three selector results of the fallback chain and the
  length of the response body.
\<close>

record listing_page =
  review_items :: "review_item list"
  review_body_items :: "review_item list option"
  review_items_new :: "review_item list"
  content_length :: nat

datatype page_response =
    RequestException
  | ParseException
  | Fetched listing_page

type_synonym review_data = "(string \<times> string) list"

definition extract_review :: "(string \<Rightarrow> string) \<Rightarrow> review_item \<Rightarrow> review_data" where
  "extract_review urljoin_root item =
     (case item_title item of
        None \<Rightarrow> []
      | Some (txt, href) \<Rightarrow>
          (''phone_name'', txt) #
          (case href of None \<Rightarrow> [] | Some h \<Rightarrow> [(''review_url'', urljoin_root h)]))
     @ (case item_img item of
          None \<Rightarrow> []
        | Some (src, alt) \<Rightarrow> [(''image_url'', src), (''image_alt'', alt)])
     @ (case item_date item of None \<Rightarrow> [] | Some d \<Rightarrow> [(''date'', d)])
     @ (case item_snippet item of None \<Rightarrow> [] | Some p \<Rightarrow> [(''snippet'', p)])"

definition select_review_items :: "listing_page \<Rightarrow> review_item list" where
  "select_review_items pg =
     (if review_items pg \<noteq> [] then review_items pg
      else
        (let items = (case review_body_items pg of None \<Rightarrow> [] | Some its \<Rightarrow> its)
         in if items \<noteq> [] then items else review_items_new pg))"

definition scrape_single_page ::
  "(string \<Rightarrow> string) \<Rightarrow> page_response \<Rightarrow> review_data list \<times> bool" where
  "scrape_single_page urljoin_root resp =
     (case resp of
        RequestException \<Rightarrow> ([], False)
      | ParseException \<Rightarrow> ([], False)
      | Fetched pg \<Rightarrow>
          (filter (\<lambda>d. d \<noteq> []) (map (extract_review urljoin_root) (select_review_items pg)),
           content_length pg > 1000))"

subsection \<open>scrape\_gsmarena\_reviews\<close>

text \<open>
  \<open>site n\<close> is the response to the request for page \<open>n\<close> (the base URL for page 1,
  the base URL with \<open>?iPage=n\<close> otherwise). The loop is \<open>while True\<close>: it need not
  terminate, so it is a partial function and \<open>None\<close> means that it never returns.
  Besides \<open>all_reviews\<close> the model returns the list of page numbers requested, in order.
\<close>

definition max_consecutive_empty :: nat where
  "max_consecutive_empty = 3"

definition limit_reached :: "int option \<Rightarrow> int \<Rightarrow> int \<Rightarrow> bool" where
  "limit_reached max_pages start_page page_num =
     (case max_pages of
        None \<Rightarrow> False
      | Some m \<Rightarrow> m \<noteq> 0 \<and> page_num - start_page + 1 \<ge> m)"

partial_function (option) pagination_loop ::
  "(string \<Rightarrow> string) \<Rightarrow> (int \<Rightarrow> page_response) \<Rightarrow> int \<Rightarrow> int option \<Rightarrow>
   int \<Rightarrow> nat \<Rightarrow> review_data list \<Rightarrow> int list \<Rightarrow> (review_data list \<times> int list) option"
where
  "pagination_loop urljoin_root site start_page max_pages page_num consecutive_empty all_reviews requested =
     (case scrape_single_page urljoin_root (site page_num) of
        (reviews, has_content) \<Rightarrow>
          if reviews \<noteq> [] then
            (if limit_reached max_pages start_page page_num
             then Some (all_reviews @ reviews, requested @ [page_num])
             else pagination_loop urljoin_root site start_page max_pages (page_num + 1) 0
                    (all_reviews @ reviews) (requested @ [page_num]))
          else
            (if \<not> has_content \<or> consecutive_empty + 1 \<ge> max_consecutive_empty
             then Some (all_reviews, requested @ [page_num])
             else if limit_reached max_pages start_page page_num
             then Some (all_reviews, requested @ [page_num])
             else pagination_loop urljoin_root site start_page max_pages (page_num + 1)
                    (consecutive_empty + 1) all_reviews (requested @ [page_num])))"

definition scrape_gsmarena_reviews ::
  "(string \<Rightarrow> string) \<Rightarrow> (int \<Rightarrow> page_response) \<Rightarrow> int \<Rightarrow> int option \<Rightarrow>
   (review_data list \<times> int list) option" where
  "scrape_gsmarena_reviews urljoin_root site start_page max_pages =
     pagination_loop urljoin_root site start_page max_pages start_page 0 [] []"

section \<open>String operations of Python used by the scripts\<close>

text \<open>
  \<open>contains sub s\<close> is \<open>sub in s\<close>; \<open>replace old new s\<close> is \<open>s.replace(old, new)\<close>
  and \<open>split sep s\<close> is \<open>s.split(sep)\<close>, both for a non-empty \<open>old\<close> or \<open>sep\<close> (the
  scripts pass literals only): occurrences are found from left to right and do not
  overlap. \<open>rsplit1 c s\<close> is \<open>s.rsplit(c, 1)\<close> for a separator of one character.
\<close>

fun contains :: "'a list \<Rightarrow> 'a list \<Rightarrow> bool" where
  "contains sub [] = (sub = [])"
| "contains sub (c # cs) = (prefix sub (c # cs) \<or> contains sub cs)"

function replace :: "'a list \<Rightarrow> 'a list \<Rightarrow> 'a list \<Rightarrow> 'a list" where
  "replace old new s =
     (if old \<noteq> [] \<and> prefix old s then new @ replace old new (drop (length old) s)
      else (case s of [] \<Rightarrow> [] | c # cs \<Rightarrow> c # replace old new cs))"
  by pat_completeness auto
termination
  by (relation "measure (\<lambda>(old, new, s). length s)") (auto simp: prefix_def)

declare replace.simps [simp del]

function split_from :: "'a list \<Rightarrow> 'a list \<Rightarrow> 'a list \<Rightarrow> 'a list list" where
  "split_from sep cur s =
     (if sep \<noteq> [] \<and> prefix sep s then cur # split_from sep [] (drop (length sep) s)
      else (case s of [] \<Rightarrow> [cur] | c # cs \<Rightarrow> split_from sep (cur @ [c]) cs))"
  by pat_completeness auto
termination
  by (relation "measure (\<lambda>(sep, cur, s). length s)") (auto simp: prefix_def)

declare split_from.simps [simp del]

definition split :: "'a list \<Rightarrow> 'a list \<Rightarrow> 'a list list" where
  "split sep s = split_from sep [] s"

definition rsplit1 :: "'a \<Rightarrow> 'a list \<Rightarrow> 'a list list" where
  "rsplit1 c s =
     (if c \<in> set s
      then [rev (tl (dropWhile (\<lambda>x. x \<noteq> c) (rev s))), rev (takeWhile (\<lambda>x. x \<noteq> c) (rev s))]
      else [s])"

text \<open>
  A character is a code point from U+0000 to U+00FF, given by its number \<open>of_char c\<close>.
  On these code points:
  \<^item> whitespace, as \<open>str.isspace\<close>, \<open>str.split()\<close>, \<open>str.strip()\<close> and the regex class
    \<open>\s\<close> see it, is 0x09 to 0x0D, 0x1C to 0x20, 0x85 and 0xA0;
  \<^item> the word characters of \<open>\w\<close> are the digits, the ASCII letters, the underscore,
    0xAA, 0xB2, 0xB3, 0xB5, 0xB9, 0xBA, 0xBC to 0xBE, 0xC0 to 0xD6, 0xD8 to 0xF6 and
    0xF8 to 0xFF;
  \<^item> \<open>str.lower\<close> adds 0x20 to 0x41 to 0x5A, 0xC0 to 0xD6 and 0xD8 to 0xDE and leaves
    every other code point as it is;
  \<^item> under \<open>re.IGNORECASE\<close> a lower-case ASCII letter of a pattern matches itself and
    its upper-case ASCII letter, and nothing else: a character matches exactly when
    its \<open>str.lower\<close> is the letter of the pattern.
\<close>

definition is_space :: "char \<Rightarrow> bool" where
  "is_space c \<longleftrightarrow>
     (let n = (of_char c :: nat)
      in (0x09 \<le> n \<and> n \<le> 0x0D) \<or> (0x1C \<le> n \<and> n \<le> 0x20) \<or> n = 0x85 \<or> n = 0xA0)"

definition is_word :: "char \<Rightarrow> bool" where
  "is_word c \<longleftrightarrow>
     (let n = (of_char c :: nat)
      in (0x30 \<le> n \<and> n \<le> 0x39) \<or> (0x41 \<le> n \<and> n \<le> 0x5A) \<or> n = 0x5F \<or>
         (0x61 \<le> n \<and> n \<le> 0x7A) \<or> n = 0xAA \<or> n = 0xB2 \<or> n = 0xB3 \<or> n = 0xB5 \<or>
         n = 0xB9 \<or> n = 0xBA \<or> (0xBC \<le> n \<and> n \<le> 0xBE) \<or> (0xC0 \<le> n \<and> n \<le> 0xD6) \<or>
         (0xD8 \<le> n \<and> n \<le> 0xF6) \<or> (0xF8 \<le> n \<and> n \<le> 0xFF))"

definition lower_char :: "char \<Rightarrow> char" where
  "lower_char c =
     (let n = (of_char c :: nat)
      in if (0x41 \<le> n \<and> n \<le> 0x5A) \<or> (0xC0 \<le> n \<and> n \<le> 0xD6) \<or> (0xD8 \<le> n \<and> n \<le> 0xDE)
         then char_of (n + 0x20) else c)"

definition lower :: "string \<Rightarrow> string" where
  "lower s = map lower_char s"

definition strip :: "string \<Rightarrow> string" where
  "strip s = rev (dropWhile is_space (rev (dropWhile is_space s)))"

definition strip_chars :: "string \<Rightarrow> string \<Rightarrow> string" where
  "strip_chars cs s =
     rev (dropWhile (\<lambda>c. c \<in> set cs) (rev (dropWhile (\<lambda>c. c \<in> set cs) s)))"

function split_ws :: "string \<Rightarrow> string list" where
  "split_ws s =
     (case dropWhile is_space s of
        [] \<Rightarrow> []
      | c # cs \<Rightarrow>
          takeWhile (\<lambda>x. \<not> is_space x) (c # cs) #
          split_ws (dropWhile (\<lambda>x. \<not> is_space x) cs))"
  by pat_completeness auto
termination
proof (relation "measure length", goal_cases)
  case 1
  show ?case by simp
next
  case (2 s c cs)
  have "length (dropWhile (\<lambda>x. \<not> is_space x) cs) \<le> length cs"
    by (rule length_dropWhile_le)
  moreover have "length (dropWhile is_space s) \<le> length s"
    by (rule length_dropWhile_le)
  ultimately show ?case using 2 by simp
qed

declare split_ws.simps [simp del]

fun join :: "string \<Rightarrow> string list \<Rightarrow> string" where
  "join sep [] = []"
| "join sep [w] = w"
| "join sep (w # ws) = w @ sep @ join sep ws"

subsection \<open>re.sub for patterns that never match the empty string\<close>

text \<open>
  A pattern is given by its matcher at the start of a string: \<open>m s = Some rest\<close> when
  the pattern matches a prefix of \<open>s\<close> and \<open>rest\<close> is what follows the match (the match
  the backtracking engine finds first), \<open>None\<close> when it does not match at that
  position. \<open>re_sub m repl s\<close> replaces the leftmost non-overlapping matches. All four
  patterns below consume at least one character when they match; a matcher that
  returns a remainder no shorter than its input is treated as failing.
\<close>

function re_sub :: "(string \<Rightarrow> string option) \<Rightarrow> string \<Rightarrow> string \<Rightarrow> string" where
  "re_sub m repl s =
     (case (case m s of None \<Rightarrow> None
            | Some rest \<Rightarrow> if length rest < length s then Some rest else None) of
        Some rest \<Rightarrow> repl @ re_sub m repl rest
      | None \<Rightarrow> (case s of [] \<Rightarrow> [] | c # cs \<Rightarrow> c # re_sub m repl cs))"
  by pat_completeness auto
termination
  by (relation "measure (\<lambda>(m, repl, s). length s)")
     (auto split: option.splits if_splits)

declare re_sub.simps [simp del]

definition match_lit_ci :: "string \<Rightarrow> string \<Rightarrow> string option" where
  "match_lit_ci pat s =
     (if lower (take (length pat) s) = pat then Some (drop (length pat) s) else None)"

text \<open>
  \<open>\s*(?:hands-on\s*)?review\s*\<close> with IGNORECASE. The leading \<open>\s*\<close> takes the whole
  run of whitespace (giving a character back never helps: the next pattern character
  is a letter); the optional group is tried first and skipped when the match fails
  with it.
\<close>

definition match_review :: "string \<Rightarrow> string option" where
  "match_review s =
     (let s1 = dropWhile is_space s;
          after_review = (\<lambda>t. case match_lit_ci ''review'' t of
                                  None \<Rightarrow> None
                                | Some r \<Rightarrow> Some (dropWhile is_space r))
      in case (case match_lit_ci ''hands-on'' s1 of
                 None \<Rightarrow> None
               | Some s2 \<Rightarrow> after_review (dropWhile is_space s2)) of
           Some r \<Rightarrow> Some r
         | None \<Rightarrow> after_review s1)"

text \<open>\<open>\s*&\s*\<close>\<close>

definition match_amp :: "string \<Rightarrow> string option" where
  "match_amp s =
     (case dropWhile is_space s of
        [] \<Rightarrow> None
      | c # r \<Rightarrow> if c = CHR ''&'' then Some (dropWhile is_space r) else None)"

text \<open>\<open>\s+\<close>\<close>

definition match_spaces :: "string \<Rightarrow> string option" where
  "match_spaces s =
     (case s of
        [] \<Rightarrow> None
      | c # r \<Rightarrow> if is_space c then Some (dropWhile is_space r) else None)"

text \<open>
  \<open>\([^)]*\)\<close>: an opening parenthesis, then everything up to the first closing one.
  Without a closing parenthesis in the rest of the string there is no match here.
\<close>

definition match_parens :: "string \<Rightarrow> string option" where
  "match_parens s =
     (case s of
        [] \<Rightarrow> None
      | c # r \<Rightarrow>
          if c = CHR ''('' \<and> CHR '')'' \<in> set r
          then Some (tl (dropWhile (\<lambda>x. x \<noteq> CHR '')'') r))
          else None)"

section \<open>Image Fetcher (phone\_image\_scraper.py)\<close>

subsection \<open>sanitize\_filename\<close>

definition invalid_chars :: "char list" where
  "invalid_chars =
     [CHR ''<'', CHR ''>'', CHR '':'', CHR 0x22, CHR ''/'', CHR 0x5C, CHR ''|'', CHR ''?'', CHR ''*'']"

definition sanitize_filename :: "string \<Rightarrow> string" where
  "sanitize_filename filename =
     (let f1 = re_sub match_review '' '' filename;
          f2 = re_sub match_amp '' and '' f1;
          f3 = map (\<lambda>c. if c \<in> set invalid_chars then CHR ''_'' else c) f2;
          f4 = strip (re_sub match_spaces '' '' f3);
          f5 = strip_chars ''. '' f4
      in if length f5 > 100 then take 100 f5 else f5)"

subsection \<open>clean\_phone\_name\<close>

record clean_info =
  safe_name :: string
  display_name :: string
  brand :: string
  model :: string

definition brand_mappings :: "(string \<times> string) list" where
  "brand_mappings =
     [(''xiaomi'', ''Xiaomi''), (''samsung'', ''Samsung''), (''vivo'', ''vivo''),
      (''oneplus'', ''OnePlus''), (''google'', ''Google''), (''apple'', ''Apple''),
      (''iphone'', ''iPhone'')]"

definition clean_name_of :: "string \<Rightarrow> string" where
  "clean_name_of phone_name =
     (let c1 = re_sub match_review [] phone_name;
          c2 = re_sub match_parens [] c1;
          c3 = concat (map (\<lambda>c. if c = CHR ''&'' then ''and'' else [c]) c2);
          c4 = filter (\<lambda>c. is_word c \<or> is_space c \<or> c = CHR ''-'') c3
      in strip (re_sub match_spaces '' '' c4))"

definition clean_phone_name :: "string \<Rightarrow> clean_info" where
  "clean_phone_name phone_name =
     (let clean_name = clean_name_of phone_name;
          words = split_ws clean_name;
          b = (case words of
                 [] \<Rightarrow> ''Unknown''
               | w # ws \<Rightarrow> (case map_of brand_mappings (lower w) of
                              Some canonical \<Rightarrow> canonical
                            | None \<Rightarrow> w));
          m = join '' '' (tl words)
      in \<lparr> safe_name = sanitize_filename clean_name,
           display_name = (if m \<noteq> [] then b @ '' '' @ m else b),
           brand = b,
           model = m \<rparr>)"

subsection \<open>construct\_pictures\_url\<close>

definition construct_pictures_url :: "string \<Rightarrow> string option" where
  "construct_pictures_url spec_url =
     (let u = (if contains ''gsmarena.com/'' spec_url
               then last (split ''gsmarena.com/'' spec_url) else spec_url);
          base = replace ''.php'' [] u;
          parts = rsplit1 CHR ''-'' base
      in if length parts = 2
         then Some (''https://www.gsmarena.com/'' @ parts ! 0 @ ''-pictures-'' @ parts ! 1 @ ''.php'')
         else None)"

subsection \<open>scrape\_images\_from\_pictures\_page\<close>

text \<open>
  An \<open>img\<close> element is its \<open>src\<close> attribute (\<open>None\<close> when it has none). A pictures page
  holds what the three queries return: the first \<open>img\<close> of the
  \<open>specs-photo-main\<close> div (\<open>None\<close>: no such div, \<open>Some None\<close>: the div has no
  \<open>img\<close>), the \<open>pictures-list\<close> div with the \<open>href\<close>s of its links that have one and
  with its \<open>img\<close> elements, and all \<open>img\<close> elements of the page, each in document
  order. \<open>urljoin_root\<close> is \<open>urljoin('https://www.gsmarena.com/', _)\<close>.
\<close>

type_synonym img_tag = "string option"

record pictures_list_div =
  list_links :: "string list"
  list_imgs :: "img_tag list"

record pictures_page =
  specs_photo_main :: "img_tag option option"
  pictures_list :: "pictures_list_div option"
  page_imgs :: "img_tag list"

datatype pictures_response =
    PicturesRequestFailed
  | PicturesPage pictures_page

text \<open>\<open>xs[:n]\<close> for a Python integer \<open>n\<close>: a negative \<open>n\<close> counts from the end.\<close>

definition slice_to :: "int \<Rightarrow> 'a list \<Rightarrow> 'a list" where
  "slice_to n xs = (if n \<ge> 0 then take (nat n) xs else take (length xs - nat (- n)) xs)"

definition has_image_ext :: "string \<Rightarrow> bool" where
  "has_image_ext s \<longleftrightarrow> contains ''.jpg'' s \<or> contains ''.png'' s \<or> contains ''.webp'' s"

definition full_size :: "string \<Rightarrow> string" where
  "full_size u =
     (if contains ''/vv/bigpic/'' u \<or> contains ''/vv/pics/'' u then u
      else if contains ''thumb'' (lower u) then replace ''thumb'' ''pics'' u
      else u)"

definition skip_markers :: "string list" where
  "skip_markers = [''icon'', ''logo'', ''sprite'', ''button'', ''blank'']"

fun links_loop :: "(string \<Rightarrow> string) \<Rightarrow> int \<Rightarrow> string list \<Rightarrow> string list \<Rightarrow> string list" where
  "links_loop urljoin_root max_images [] image_urls = image_urls"
| "links_loop urljoin_root max_images (href # links) image_urls =
     (if has_image_ext href then
        (let img_url = urljoin_root href in
         if img_url \<notin> set image_urls then
           (if int (length (image_urls @ [img_url])) \<ge> max_images
            then image_urls @ [img_url]
            else links_loop urljoin_root max_images links (image_urls @ [img_url]))
         else links_loop urljoin_root max_images links image_urls)
      else links_loop urljoin_root max_images links image_urls)"

fun imgs_loop :: "(string \<Rightarrow> string) \<Rightarrow> int \<Rightarrow> img_tag list \<Rightarrow> string list \<Rightarrow> string list" where
  "imgs_loop urljoin_root max_images [] image_urls = image_urls"
| "imgs_loop urljoin_root max_images (img # img_tags) image_urls =
     (let src = (case img of None \<Rightarrow> [] | Some s \<Rightarrow> s) in
      if list_ex (\<lambda>skip. contains skip (lower src)) skip_markers
      then imgs_loop urljoin_root max_images img_tags image_urls
      else if src \<noteq> [] \<and> has_image_ext src then
        (let img_url = full_size (urljoin_root src) in
         if img_url \<notin> set image_urls then
           (if int (length (image_urls @ [img_url])) \<ge> max_images
            then image_urls @ [img_url]
            else imgs_loop urljoin_root max_images img_tags (image_urls @ [img_url]))
         else imgs_loop urljoin_root max_images img_tags image_urls)
      else imgs_loop urljoin_root max_images img_tags image_urls)"

definition main_image :: "(string \<Rightarrow> string) \<Rightarrow> pictures_page \<Rightarrow> string list" where
  "main_image urljoin_root pg =
     (case specs_photo_main pg of
        Some (Some (Some src)) \<Rightarrow> (if src \<noteq> [] then [full_size (urljoin_root src)] else [])
      | _ \<Rightarrow> [])"

definition scrape_images_from_pictures_page ::
  "(string \<Rightarrow> string) \<Rightarrow> pictures_response \<Rightarrow> int \<Rightarrow> string list" where
  "scrape_images_from_pictures_page urljoin_root resp max_images =
     (case resp of
        PicturesRequestFailed \<Rightarrow> []
      | PicturesPage pg \<Rightarrow>
          (let urls1 = main_image urljoin_root pg;
               urls2 = (case pictures_list pg of
                          None \<Rightarrow> urls1
                        | Some pl \<Rightarrow> links_loop urljoin_root max_images (list_links pl) urls1);
               urls3 = (if length urls2 \<le> 1
                        then imgs_loop urljoin_root max_images
                               (case pictures_list pg of
                                  None \<Rightarrow> page_imgs pg
                                | Some pl \<Rightarrow> list_imgs pl) urls2
                        else urls2)
           in slice_to max_images urls3))"

subsection \<open>download\_image\<close>

text \<open>
  What one call of \<open>download_image\<close> meets: \<open>requests.get\<close> raises (timeout, connection
  error), or it returns a response with a status code; then \<open>body_bytes\<close> is the number
  of bytes the response streams and \<open>io_ok\<close> tells whether creating the directory,
  opening the file and writing all chunks go through without an exception.
  \<open>raise_for_status\<close> of the requests library raises \<open>HTTPError\<close> exactly for the
  status codes from 400 to 599.
\<close>

datatype download_outcome =
    GetRaises
  | Response (status_code: nat) (body_bytes: nat) (io_ok: bool)

definition raise_for_status_raises :: "nat \<Rightarrow> bool" where
  "raise_for_status_raises status \<longleftrightarrow> 400 \<le> status \<and> status < 600"

definition download_image :: "download_outcome \<Rightarrow> bool" where
  "download_image outcome =
     (case outcome of
        GetRaises \<Rightarrow> False
      | Response status n ok \<Rightarrow>
          if raise_for_status_raises status then False
          else if \<not> ok then False
          else n > 0)"

subsection \<open>download\_phone\_images\<close>

text \<open>\<open>str(n)\<close> for a natural number, \<open>os.path.join\<close> and the extension part of
  \<open>os.path.splitext\<close> (POSIX flavour).\<close>

definition digit_char :: "nat \<Rightarrow> char" where
  "digit_char d = ''0123456789'' ! d"

function str_nat :: "nat \<Rightarrow> string" where
  "str_nat n = (if n < 10 then [digit_char n] else str_nat (n div 10) @ [digit_char (n mod 10)])"
  by pat_completeness auto
termination
  by (relation "measure id") auto

declare str_nat.simps [simp del]

definition path_join :: "string \<Rightarrow> string \<Rightarrow> string" where
  "path_join a b =
     (if prefix ''/'' b then b
      else if a = [] \<or> last a = CHR ''/'' then a @ b
      else a @ ''/'' @ b)"

definition splitext_ext :: "string \<Rightarrow> string" where
  "splitext_ext p =
     (let name = rev (takeWhile (\<lambda>c. c \<noteq> CHR ''/'') (rev p));
          stem = rev (tl (dropWhile (\<lambda>c. c \<noteq> CHR ''.'') (rev name)))
      in if CHR ''.'' \<in> set name \<and> list_ex (\<lambda>c. c \<noteq> CHR ''.'') stem
         then CHR ''.'' # rev (takeWhile (\<lambda>c. c \<noteq> CHR ''.'') (rev name))
         else [])"

definition image_ext :: "(string \<Rightarrow> string) \<Rightarrow> string \<Rightarrow> string" where
  "image_ext url_path img_url =
     (let ext = splitext_ext (url_path img_url)
      in if ext = [] \<or> ext \<notin> set [''.jpg'', ''.jpeg'', ''.png'', ''.webp''] then ''.jpg'' else ext)"

text \<open>
  The loop over \<open>enumerate(image_urls, 1)\<close>. \<open>net img_url save_path\<close> is what the call
  \<open>download_image(img_url, save_path, headers)\<close> meets. The result is
  \<open>downloaded_paths\<close> together with the file names of all slots, in the order in
  which the loop prints them.
\<close>

fun download_loop ::
  "(string \<Rightarrow> string) \<Rightarrow> (string \<Rightarrow> string \<Rightarrow> download_outcome) \<Rightarrow> string \<Rightarrow>
   nat \<Rightarrow> string list \<Rightarrow> string list \<Rightarrow> string list \<Rightarrow> string list \<times> string list" where
  "download_loop url_path net phone_dir idx [] downloaded_paths attempted =
     (downloaded_paths, attempted)"
| "download_loop url_path net phone_dir idx (img_url # image_urls) downloaded_paths attempted =
     (let ext = image_ext url_path img_url;
          filename = (if idx = 1 then ''main'' @ ext else ''angle_'' @ str_nat idx @ ext);
          save_path = path_join phone_dir filename
      in if download_image (net img_url save_path)
         then download_loop url_path net phone_dir (idx + 1) image_urls
                (downloaded_paths @ [save_path]) (attempted @ [filename])
         else download_loop url_path net phone_dir (idx + 1) image_urls
                downloaded_paths (attempted @ [filename]))"

text \<open>
  The libraries, the network and the file system as one environment: \<open>urljoin_root\<close>,
  \<open>url_path\<close> (\<open>urlparse(_).path\<close>, taken not to raise on a URL that \<open>urljoin\<close>
  returned), the response to the request for a pictures URL, the outcome of each
  image download, and whether \<open>os.makedirs(path, exist_ok=True)\<close> succeeds for a path.
\<close>

record env =
  urljoin_root :: "string \<Rightarrow> string"
  url_path :: "string \<Rightarrow> string"
  pictures_site :: "string \<Rightarrow> pictures_response"
  image_net :: "string \<Rightarrow> string \<Rightarrow> download_outcome"
  makedirs_ok :: "string \<Rightarrow> bool"

text \<open>
  The exceptions that nothing in \<open>phone_image_scraper.py\<close> catches. The phone name is
  what the CSV row holds under \<open>phone_name\<close>: \<open>None\<close> for a row that is shorter than the
  header. On \<open>None\<close> the first \<open>re.sub\<close> of \<open>clean_phone_name\<close> raises a \<open>TypeError\<close>;
  \<open>os.makedirs(phone_dir)\<close> raises an \<open>OSError\<close> when the directory cannot be created.
  Both stand outside every \<open>try\<close>.
\<close>

datatype py_error = TypeError | OSError

definition download_phone_images ::
  "env \<Rightarrow> string option \<Rightarrow> string \<Rightarrow> string \<Rightarrow> int \<Rightarrow>
   py_error + ((string list \<times> string list) \<times> clean_info)" where
  "download_phone_images e phone_name spec_url images_dir max_images =
     (case phone_name of
        None \<Rightarrow> Inl TypeError
      | Some name \<Rightarrow>
          (let info = clean_phone_name name in
           case construct_pictures_url spec_url of
             None \<Rightarrow> Inr (([], []), info)
           | Some pictures_url \<Rightarrow>
               (let image_urls = scrape_images_from_pictures_page (urljoin_root e)
                                   (pictures_site e pictures_url) max_images
                in if image_urls = [] then Inr (([], []), info)
                   else if \<not> makedirs_ok e (path_join images_dir (safe_name info))
                   then Inl OSError
                   else Inr (download_loop (url_path e) (image_net e)
                               (path_join images_dir (safe_name info)) 1 image_urls [] [],
                             info))))"

subsection \<open>process\_phones\_from\_csv\<close>

text \<open>
  A row of \<open>csv.DictReader\<close> maps every column of the header to the cell of the row, or
  to \<open>None\<close> when the row has no such cell. \<open>row_get\<close> is \<open>row.get(key)\<close>.
\<close>

type_synonym csv_row = "(string \<times> string option) list"

definition row_get :: "csv_row \<Rightarrow> string \<Rightarrow> string option" where
  "row_get row key = (case map_of row key of None \<Rightarrow> None | Some v \<Rightarrow> v)"

record phone =
  phone_name :: "string option"
  spec_url :: string

record manifest_entry =
  entry_spec_url :: string
  image_count :: nat
  image_paths :: "string list"
  entry_clean_info :: clean_info

text \<open>\<open>a or b\<close> on optional strings: the first that is neither \<open>None\<close> nor empty,
  else the last.\<close>

definition truthy :: "string option \<Rightarrow> bool" where
  "truthy v \<longleftrightarrow> (case v of None \<Rightarrow> False | Some s \<Rightarrow> s \<noteq> [])"

definition py_or :: "string option \<Rightarrow> string option \<Rightarrow> string option" where
  "py_or a b = (if truthy a then a else b)"

text \<open>A row is kept when it has the key \<open>phone_name\<close>, whatever is stored under it, and
  a non-empty URL under one of the three keys.\<close>

definition read_phones :: "csv_row list \<Rightarrow> phone list" where
  "read_phones rows =
     concat (map (\<lambda>row.
       (let su = py_or (py_or (row_get row ''spec_url'') (row_get row ''_metadata - spec_url''))
                       (row_get row ''review_url'')
        in case su of
             Some url \<Rightarrow>
               (if map_of row ''phone_name'' \<noteq> None \<and> url \<noteq> []
                then [\<lparr> phone_name = row_get row ''phone_name'', spec_url = url \<rparr>] else [])
           | None \<Rightarrow> [])) rows)"

record batch_state =
  results :: "(string option \<times> manifest_entry) list"
  successful :: nat
  failed :: nat

definition process_phone ::
  "env \<Rightarrow> string \<Rightarrow> int \<Rightarrow> batch_state \<Rightarrow> phone \<Rightarrow> py_error + batch_state" where
  "process_phone e images_dir max_images_per_phone st ph =
     (if spec_url ph = [] then Inr (st\<lparr> failed := failed st + 1 \<rparr>)
      else
        (case download_phone_images e (phone_name ph) (spec_url ph) images_dir max_images_per_phone of
           Inl err \<Rightarrow> Inl err
         | Inr ((paths, attempted), info) \<Rightarrow>
             if paths \<noteq> [] then
               Inr (st\<lparr> results := AList.update (phone_name ph)
                                      \<lparr> entry_spec_url = spec_url ph,
                                        image_count = length paths,
                                        image_paths = paths,
                                        entry_clean_info = info \<rparr> (results st),
                        successful := successful st + 1 \<rparr>)
             else Inr (st\<lparr> failed := failed st + 1 \<rparr>)))"

text \<open>The loop over the phones: an exception of one iteration ends it.\<close>

fun process_all ::
  "env \<Rightarrow> string \<Rightarrow> int \<Rightarrow> batch_state \<Rightarrow> phone list \<Rightarrow> py_error + batch_state" where
  "process_all e images_dir max_images_per_phone st [] = Inr st"
| "process_all e images_dir max_images_per_phone st (ph # phones) =
     (case process_phone e images_dir max_images_per_phone st ph of
        Inl err \<Rightarrow> Inl err
      | Inr st' \<Rightarrow> process_all e images_dir max_images_per_phone st' phones)"

definition selected_phones :: "csv_row list \<Rightarrow> int option \<Rightarrow> int \<Rightarrow> phone list" where
  "selected_phones rows max_phones start_from =
     (let phones0 = read_phones rows;
          phones1 = (if start_from > 0 then drop (nat start_from) phones0 else phones0)
      in case max_phones of
           None \<Rightarrow> phones1
         | Some m \<Rightarrow> if m \<noteq> 0 then slice_to m phones1 else phones1)"

text \<open>\<open>csv_rows = None\<close>: reading the CSV file raises, which is caught, and the function
  returns the empty dictionary. Otherwise \<open>os.makedirs(images_dir)\<close> comes first.\<close>

definition process_phones_from_csv ::
  "env \<Rightarrow> csv_row list option \<Rightarrow> string \<Rightarrow> int option \<Rightarrow> int \<Rightarrow> int \<Rightarrow>
   py_error + batch_state" where
  "process_phones_from_csv e csv_rows images_dir max_phones max_images_per_phone start_from =
     (case csv_rows of
        None \<Rightarrow> Inr \<lparr> results = [], successful = 0, failed = 0 \<rparr>
      | Some rows \<Rightarrow>
          if \<not> makedirs_ok e images_dir then Inl OSError
          else process_all e images_dir max_images_per_phone
                 \<lparr> results = [], successful = 0, failed = 0 \<rparr>
                 (selected_phones rows max_phones start_from))"

section \<open>Spec Extractor (phone\_specs\_scraper.py): scrape\_specifications\<close>

text \<open>
  The \<open>specifications\<close> dictionary maps \<open>'phone_name'\<close> to a string and a category
  name to a dictionary of fields. A table of the page is the text of the \<open>th\<close> that
  \<open>find_previous\<close> returns (if any) and, per \<open>tr\<close>, the stripped texts of its \<open>td\<close>
  cells. A table of the \<open>specs-list\<close> div is the text of its first \<open>th\<close> (if any) and,
  per \<open>tr\<close>, the texts of the cells of class \<open>ttl\<close> and of class \<open>nfo\<close>. Both
  fields of a page describe the same document: a table of the \<open>specs-list\<close> div is
  also one of the tables of the page, and its \<open>ttl\<close> and \<open>nfo\<close> cells are among its
  \<open>td\<close> cells.
\<close>

datatype spec_value =
    PhoneName string
  | Category "(string \<times> string) list"

type_synonym specifications = "(string \<times> spec_value) list"

record spec_table =
  previous_th :: "string option"
  table_rows :: "string list list"

record specs_list_table =
  first_th :: "string option"
  ttl_nfo_rows :: "(string list \<times> string list) list"

record spec_page =
  phone_title :: "string option"
  tables :: "spec_table list"
  specs_list :: "specs_list_table list option"

datatype spec_response =
    SpecRequestFailed
  | SpecPage spec_page

text \<open>\<open>specifications[category][spec_name] = spec_value\<close>: a \<open>TypeError\<close> (\<open>None\<close>) when
  the entry under \<open>category\<close> is the phone-name string.\<close>

definition set_field :: "string \<Rightarrow> string \<Rightarrow> string \<Rightarrow> specifications \<Rightarrow> specifications option" where
  "set_field category k v specs =
     (case map_of specs category of
        Some (Category d) \<Rightarrow> Some (AList.update category (Category (AList.update k v d)) specs)
      | _ \<Rightarrow> None)"

fun rows_loop :: "string \<Rightarrow> string list list \<Rightarrow> specifications \<Rightarrow> specifications option" where
  "rows_loop category [] specs = Some specs"
| "rows_loop category (cells # rows) specs =
     (if length cells \<ge> 2 then
        (let spec_name = re_sub match_spaces '' '' (cells ! 0);
             spec_val = re_sub match_spaces '' '' (cells ! 1)
         in if spec_name \<noteq> [] \<and> spec_val \<noteq> [] then
              (case set_field category spec_name spec_val specs of
                 None \<Rightarrow> None
               | Some specs' \<Rightarrow> rows_loop category rows specs')
            else rows_loop category rows specs)
      else rows_loop category rows specs)"

fun tables_loop :: "spec_table list \<Rightarrow> specifications \<Rightarrow> specifications option" where
  "tables_loop [] specs = Some specs"
| "tables_loop (t # ts) specs =
     (let category = (case previous_th t of Some h \<Rightarrow> h | None \<Rightarrow> ''General'');
          specs1 = (if category \<notin> fst ` set specs
                    then AList.update category (Category []) specs else specs)
      in case rows_loop category (table_rows t) specs1 of
           None \<Rightarrow> None
         | Some specs2 \<Rightarrow> tables_loop ts specs2)"

definition primary_method :: "spec_page \<Rightarrow> specifications option" where
  "primary_method pg =
     tables_loop (tables pg)
       (case phone_title pg of None \<Rightarrow> [] | Some t \<Rightarrow> [(''phone_name'', PhoneName t)])"

fun pairs_loop :: "string \<Rightarrow> (string \<times> string) list \<Rightarrow> specifications \<Rightarrow> specifications option" where
  "pairs_loop category [] specs = Some specs"
| "pairs_loop category ((spec_name, spec_val) # ps) specs =
     (if spec_name \<noteq> [] \<and> spec_val \<noteq> [] then
        (case set_field category spec_name spec_val specs of
           None \<Rightarrow> None
         | Some specs' \<Rightarrow> pairs_loop category ps specs')
      else pairs_loop category ps specs)"

fun alt_rows_loop ::
  "string \<Rightarrow> (string list \<times> string list) list \<Rightarrow> specifications \<Rightarrow> specifications option" where
  "alt_rows_loop category [] specs = Some specs"
| "alt_rows_loop category ((cells, vals) # rows) specs =
     (case pairs_loop category (zip cells vals) specs of
        None \<Rightarrow> None
      | Some specs' \<Rightarrow> alt_rows_loop category rows specs')"

fun alt_tables_loop :: "specs_list_table list \<Rightarrow> specifications \<Rightarrow> specifications option" where
  "alt_tables_loop [] specs = Some specs"
| "alt_tables_loop (t # ts) specs =
     (case first_th t of
        None \<Rightarrow> alt_tables_loop ts specs
      | Some category \<Rightarrow>
          (case alt_rows_loop category (ttl_nfo_rows t)
                  (AList.update category (Category []) specs) of
             None \<Rightarrow> None
           | Some specs' \<Rightarrow> alt_tables_loop ts specs'))"

definition alternate_method :: "spec_page \<Rightarrow> specifications \<Rightarrow> specifications option" where
  "alternate_method pg specs =
     (case specs_list pg of
        None \<Rightarrow> Some specs
      | Some ts \<Rightarrow> alt_tables_loop ts specs)"

definition scrape_specifications :: "spec_response \<Rightarrow> specifications option" where
  "scrape_specifications resp =
     (case resp of
        SpecRequestFailed \<Rightarrow> None
      | SpecPage pg \<Rightarrow>
          (case primary_method pg of
             None \<Rightarrow> None
           | Some specs \<Rightarrow>
               if length specs \<le> 1 then alternate_method pg specs else Some specs))"

text \<open>The categories of a \<open>specifications\<close> dictionary: its entries that are field
  dictionaries.\<close>

definition categories :: "specifications \<Rightarrow> string list" where
  "categories specs = map fst (filter (\<lambda>(k, v). case v of Category d \<Rightarrow> True | PhoneName n \<Rightarrow> False) specs)"

section \<open>Notions of the specification and concrete inputs\<close>

text \<open>
  The definitions of this section are not part of the scripts: they name what the
  specification talks about (the file name of a slot, the order of discovery, the
  shape of a cleaned name) and fix the inputs at which the theorems are instantiated.
  First, listing pages for the Review Lister.
\<close>

definition root_join :: "string \<Rightarrow> string" where
  "root_join href = ''https://www.gsmarena.com/'' @ href"

definition demo_item :: "string \<Rightarrow> review_item" where
  "demo_item name =
     \<lparr> item_title = Some (name, Some ''x-review-1.php''), item_img = None,
       item_date = None, item_snippet = None \<rparr>"

definition full_page :: "string \<Rightarrow> page_response" where
  "full_page name =
     Fetched \<lparr> review_items = [demo_item name], review_body_items = None,
               review_items_new = [], content_length = 5000 \<rparr>"

definition empty_page :: listing_page where
  "empty_page =
     \<lparr> review_items = [], review_body_items = None, review_items_new = [],
       content_length = 5000 \<rparr>"

definition demo_site :: "int \<Rightarrow> page_response" where
  "demo_site n =
     (if n = 1 then full_page ''A'' else if n = 2 then full_page ''B''
      else if n = 3 then full_page ''C'' else if n \<le> 6 then Fetched empty_page
      else full_page ''Z'')"

definition broken_site :: "int \<Rightarrow> page_response" where
  "broken_site n = (if n = 2 then RequestException else full_page ''A'')"

text \<open>
  The file name of a slot as the specification words it: \<open>main\<close> for position 1 and
  \<open>angle_n\<close> for position \<open>n\<close> otherwise, followed by the extension of the URL's path
  when that is one of the four image extensions and by \<open>.jpg\<close> when it is not.
\<close>

definition spec_slot_filename :: "(string \<Rightarrow> string) \<Rightarrow> nat \<Rightarrow> string \<Rightarrow> string" where
  "spec_slot_filename up n u =
     (if n = 1 then ''main'' else ''angle_'' @ str_nat n) @
     (if splitext_ext (up u) \<in> set [''.jpg'', ''.jpeg'', ''.png'', ''.webp'']
      then splitext_ext (up u) else ''.jpg'')"

definition entry_ok :: "manifest_entry \<Rightarrow> bool" where
  "entry_ok en \<longleftrightarrow> image_count en = length (image_paths en) \<and> 1 \<le> image_count en"

text \<open>
  What the specification says of one phone of the batch, from the outcomes of its own
  downloads alone: the save paths of the slots of this phone whose download
  succeeded, in slot order, and the manifest entry made of them. The manifest of a
  list of phones holds the entry of every phone that has such a path, a later phone
  of the same name replacing an earlier one.
\<close>

definition succeeded_paths :: "env \<Rightarrow> string \<Rightarrow> int \<Rightarrow> phone \<Rightarrow> string list" where
  "succeeded_paths e images_dir max_images ph =
     (case (phone_name ph, construct_pictures_url (spec_url ph)) of
        (Some name, Some pictures_url) \<Rightarrow>
          (let image_urls = scrape_images_from_pictures_page (urljoin_root e)
                              (pictures_site e pictures_url) max_images;
               phone_dir = path_join images_dir (safe_name (clean_phone_name name));
               save_path = (\<lambda>k. path_join phone_dir
                                   (spec_slot_filename (url_path e) (k + 1) (image_urls ! k)))
           in map save_path
                (filter (\<lambda>k. download_image (image_net e (image_urls ! k) (save_path k)))
                   [0 ..< length image_urls]))
      | _ \<Rightarrow> [])"

definition spec_entry :: "env \<Rightarrow> string \<Rightarrow> int \<Rightarrow> phone \<Rightarrow> manifest_entry" where
  "spec_entry e images_dir max_images ph =
     \<lparr> entry_spec_url = spec_url ph,
       image_count = length (succeeded_paths e images_dir max_images ph),
       image_paths = succeeded_paths e images_dir max_images ph,
       entry_clean_info = clean_phone_name (case phone_name ph of None \<Rightarrow> [] | Some name \<Rightarrow> name) \<rparr>"

fun spec_manifest ::
  "env \<Rightarrow> string \<Rightarrow> int \<Rightarrow> (string option \<times> manifest_entry) list \<Rightarrow> phone list \<Rightarrow>
   (string option \<times> manifest_entry) list" where
  "spec_manifest e images_dir max_images m [] = m"
| "spec_manifest e images_dir max_images m (ph # phones) =
     spec_manifest e images_dir max_images
       (if succeeded_paths e images_dir max_images ph \<noteq> []
        then AList.update (phone_name ph) (spec_entry e images_dir max_images ph) m else m)
       phones"

text \<open>A pictures page, three networks and CSV files used to instantiate the theorems on
  the Image Fetcher. In \<open>two_rows\<close> and \<open>short_rows\<close> the header is
  \<open>spec_url,phone_name\<close>; the first row of \<open>short_rows\<close> has one cell only.\<close>

definition demo_url_path :: "string \<Rightarrow> string" where
  "demo_url_path u =
     takeWhile (\<lambda>c. c \<noteq> CHR ''?'')
       (if prefix ''https://www.gsmarena.com'' u then drop 24 u else u)"

definition demo_pictures_page :: pictures_page where
  "demo_pictures_page =
     \<lparr> specs_photo_main = Some (Some (Some ''vv/bigpic/a.jpg'')),
       pictures_list = Some \<lparr> list_links = [''vv/pics/b.png'', ''vv/pics/c.gif''], list_imgs = [] \<rparr>,
       page_imgs = [] \<rparr>"

definition demo_env :: "(string \<Rightarrow> string \<Rightarrow> download_outcome) \<Rightarrow> env" where
  "demo_env net =
     \<lparr> urljoin_root = root_join, url_path = demo_url_path,
       pictures_site = (\<lambda>u. PicturesPage demo_pictures_page), image_net = net,
       makedirs_ok = (\<lambda>p. True) \<rparr>"

definition flaky_net :: "string \<Rightarrow> string \<Rightarrow> download_outcome" where
  "flaky_net u p =
     (if u = ''https://www.gsmarena.com/vv/bigpic/a.jpg'' then Response 404 0 True
      else Response 200 2048 True)"

definition dead_net :: "string \<Rightarrow> string \<Rightarrow> download_outcome" where
  "dead_net u p = Response 503 0 True"

text \<open>Every download into the directory of the first phone of \<open>two_rows\<close> fails; for
  the other directories the network is \<open>flaky_net\<close>.\<close>

definition first_dead_net :: "string \<Rightarrow> string \<Rightarrow> download_outcome" where
  "first_dead_net u p =
     (if prefix ''images/vivo X300 Pro 5G/'' p then Response 503 0 True else flaky_net u p)"

definition demo_rows :: "csv_row list" where
  "demo_rows =
     [[(''phone_name'', Some ''vivo X300 Pro 5G Review''),
       (''spec_url'', Some ''https://www.gsmarena.com/vivo_x300_pro_5g-14225.php'')]]"

definition two_rows :: "csv_row list" where
  "two_rows =
     [[(''spec_url'', Some ''https://www.gsmarena.com/vivo_x300_pro_5g-14225.php''),
       (''phone_name'', Some ''vivo X300 Pro 5G Review'')],
      [(''spec_url'', Some ''https://www.gsmarena.com/samsung_galaxy_s24-12773.php''),
       (''phone_name'', Some ''Samsung Galaxy S24 review'')]]"

definition short_rows :: "csv_row list" where
  "short_rows =
     [[(''spec_url'', Some ''https://www.gsmarena.com/vivo_x300_pro_5g-14225.php''),
       (''phone_name'', None)],
      [(''spec_url'', Some ''https://www.gsmarena.com/samsung_galaxy_s24-12773.php''),
       (''phone_name'', Some ''Samsung Galaxy S24 review'')]]"

definition demo_phone :: phone where
  "demo_phone =
     \<lparr> phone_name = Some ''vivo X300 Pro 5G Review'',
       spec_url = ''https://www.gsmarena.com/vivo_x300_pro_5g-14225.php'' \<rparr>"

definition demo_urls :: "string list" where
  "demo_urls =
     [''https://www.gsmarena.com/vv/bigpic/a.jpg'', ''https://www.gsmarena.com/vv/pics/b.png'',
      ''https://www.gsmarena.com/vv/pics/c.gif'']"

text \<open>
  The entries of a \<open>specifications\<close> dictionary that are not categories, and two
  specification pages used to instantiate the theorems on the Spec Extractor. The
  first is the page
  \<^verbatim>\<open><h1 class="specs-phone-name-title">vivo X300 Pro</h1>
  <div id="specs-list"><table><tr><th>Network</th>
  <td class="ttl">Technology</td><td class="nfo">GSM / HSPA / LTE / 5G</td></tr></table></div>\<close>
  with a single table, which lies in the \<open>specs-list\<close> div: no \<open>th\<close> precedes the table
  (its own \<open>th\<close> lies inside it), its only row has the two \<open>td\<close> cells, and these
  are its \<open>ttl\<close> and \<open>nfo\<close> cells. The second is the same page without the \<open>h1\<close>.
\<close>

definition is_name :: "string \<times> spec_value \<Rightarrow> bool" where
  "is_name kv = (case snd kv of PhoneName n \<Rightarrow> True | Category d \<Rightarrow> False)"

definition one_category_page :: spec_page where
  "one_category_page =
     \<lparr> phone_title = Some ''vivo X300 Pro'',
       tables = [\<lparr> previous_th = None, table_rows = [[''Technology'', ''GSM / HSPA / LTE / 5G'']] \<rparr>],
       specs_list = Some [\<lparr> first_th = Some ''Network'',
                            ttl_nfo_rows = [([''Technology''], [''GSM / HSPA / LTE / 5G''])] \<rparr>] \<rparr>"

definition no_title_page :: spec_page where
  "no_title_page = one_category_page \<lparr> phone_title := None \<rparr>"

text \<open>
  The order of discovery as the specification words it: the candidates are the main
  image, then the picture-list links with an image extension in document order, then
  the images of the broadened scan in document order; \<open>unseen\<close> keeps the first
  occurrence of each URL.
\<close>

fun unseen :: "'a list \<Rightarrow> 'a list \<Rightarrow> 'a list" where
  "unseen seen [] = []"
| "unseen seen (x # xs) = (if x \<in> set seen then unseen seen xs else x # unseen (seen @ [x]) xs)"

definition link_candidates :: "(string \<Rightarrow> string) \<Rightarrow> string list \<Rightarrow> string list" where
  "link_candidates uj links = map uj (filter has_image_ext links)"

definition img_src :: "img_tag \<Rightarrow> string" where
  "img_src img = (case img of None \<Rightarrow> [] | Some s \<Rightarrow> s)"

definition img_candidates :: "(string \<Rightarrow> string) \<Rightarrow> img_tag list \<Rightarrow> string list" where
  "img_candidates uj imgs =
     map (\<lambda>img. full_size (uj (img_src img)))
       (filter (\<lambda>img. \<not> list_ex (\<lambda>skip. contains skip (lower (img_src img))) skip_markers \<and>
                       img_src img \<noteq> [] \<and> has_image_ext (img_src img)) imgs)"

definition discovery_order :: "(string \<Rightarrow> string) \<Rightarrow> pictures_page \<Rightarrow> string list" where
  "discovery_order uj pg =
     unseen []
       (main_image uj pg @
        (case pictures_list pg of None \<Rightarrow> [] | Some pl \<Rightarrow> link_candidates uj (list_links pl)) @
        img_candidates uj (case pictures_list pg of None \<Rightarrow> page_imgs pg | Some pl \<Rightarrow> list_imgs pl))"

definition scan_page :: pictures_page where
  "scan_page =
     \<lparr> specs_photo_main = None, pictures_list = None,
       page_imgs = [Some ''img/logo.png'', Some ''vv/thumb/a.jpg'', None, Some ''vv/thumb/a.jpg'',
                    Some ''vv/bigpic/b.jpg'', Some ''vv/bigpic/c.jpg''] \<rparr>"

text \<open>
  Shapes of a cleaned name: \<open>collapsed\<close> (every whitespace character is a single space
  followed by a character that is not whitespace), \<open>trimmed\<close> (no whitespace at either
  end) and \<open>allowed\<close> (the characters that the filter of \<open>clean_phone_name\<close> keeps).
\<close>

fun collapsed :: "string \<Rightarrow> bool" where
  "collapsed [] = True"
| "collapsed [c] = (is_space c \<longrightarrow> c = CHR '' '')"
| "collapsed (c # d # s) = ((is_space c \<longrightarrow> c = CHR '' '' \<and> \<not> is_space d) \<and> collapsed (d # s))"

definition allowed :: "char \<Rightarrow> bool" where
  "allowed c \<longleftrightarrow> is_word c \<or> is_space c \<or> c = CHR ''-''"

definition trimmed :: "string \<Rightarrow> bool" where
  "trimmed s \<longleftrightarrow> s = [] \<or> (\<not> is_space (hd s) \<and> \<not> is_space (last s))"

section \<open>Properties of the Review Lister\<close>

lemma limit_small:
  assumes "case max_pages of None \<Rightarrow> True | Some m \<Rightarrow> m = 0 \<or> 6 \<le> m" "p \<le> 5"
  shows "\<not> limit_reached max_pages 1 p"
  using assms by (auto simp: limit_reached_def split: option.splits)

text \<open>One iteration of the loop, by the three ways it can go.\<close>

lemma loop_records:
  assumes "scrape_single_page uj (site p) = (r, c)" "r \<noteq> []" "\<not> limit_reached mx sp p"
  shows "pagination_loop uj site sp mx p ce acc req =
           pagination_loop uj site sp mx (p + 1) 0 (acc @ r) (req @ [p])"
  using assms by (subst pagination_loop.simps) simp

lemma loop_empty_continue:
  assumes "scrape_single_page uj (site p) = ([], True)" "ce + 1 < max_consecutive_empty"
    "\<not> limit_reached mx sp p"
  shows "pagination_loop uj site sp mx p ce acc req =
           pagination_loop uj site sp mx (p + 1) (ce + 1) acc (req @ [p])"
  using assms by (subst pagination_loop.simps) simp

lemma loop_empty_stop:
  assumes "scrape_single_page uj (site p) = ([], c)" "\<not> c \<or> ce + 1 \<ge> max_consecutive_empty"
  shows "pagination_loop uj site sp mx p ce acc req = Some (acc, req @ [p])"
  using assms by (subst pagination_loop.simps) auto

lemma scrape_full_page:
  "scrape_single_page root_join (full_page name) =
     ([[(''phone_name'', name), (''review_url'', ''https://www.gsmarena.com/x-review-1.php'')]], True)"
  by (simp add: scrape_single_page_def full_page_def select_review_items_def
        extract_review_def demo_item_def root_join_def)

text \<open>
  C2, as stated, fails. Page 1 yields a record, the request for page 2 raises: the
  run requests pages 1 and 2 only and returns, although the streak of empty pages
  is 1; page 3 is never requested.
\<close>

theorem exception_page_counterexample:
  "broken_site 2 = RequestException \<and>
   scrape_gsmarena_reviews root_join broken_site 1 None =
     Some ([[(''phone_name'', ''A''), (''review_url'', ''https://www.gsmarena.com/x-review-1.php'')]],
           [1, 2])"
proof -
  have s1: "scrape_single_page root_join (broken_site 1) =
      ([[(''phone_name'', ''A''), (''review_url'', ''https://www.gsmarena.com/x-review-1.php'')]], True)"
    by (simp add: broken_site_def scrape_full_page)
  have s2: "scrape_single_page root_join (broken_site 2) = ([], False)"
    by (simp add: broken_site_def scrape_single_page_def)
  have "pagination_loop root_join broken_site 1 None 1 0 [] [] =
        pagination_loop root_join broken_site 1 None 2 0
          [[(''phone_name'', ''A''), (''review_url'', ''https://www.gsmarena.com/x-review-1.php'')]] [1]"
    using loop_records[of root_join broken_site 1 _ True None 1 0 "[]" "[]"] s1
    by (simp add: limit_reached_def)
  also have "\<dots> = Some ([[(''phone_name'', ''A''),
        (''review_url'', ''https://www.gsmarena.com/x-review-1.php'')]], [1, 2])"
    using loop_empty_stop[of root_join broken_site 2 False 0 1 None _ "[1]"] s2 by simp
  finally show ?thesis
    by (simp add: scrape_gsmarena_reviews_def broken_site_def)
qed

text \<open>
  C2, amended: a fetch or parse exception on a page is caught and turned into an empty
  page without content, and the loop stops at that page whatever the streak of empty
  pages is: the run returns the records of the earlier pages and requests no further
  page.
\<close>

theorem exception_page_ends_pagination:
  assumes "site p = RequestException \<or> site p = ParseException"
  shows "scrape_single_page uj (site p) = ([], False) \<and>
         pagination_loop uj site sp mx p ce acc req = Some (acc, req @ [p])"
proof -
  have s: "scrape_single_page uj (site p) = ([], False)"
    using assms by (auto simp: scrape_single_page_def)
  from loop_empty_stop[of uj site p False ce sp mx acc req] s show ?thesis by simp
qed

theorem exception_page_ends_pagination_witness:
  "(broken_site 2 = RequestException \<or> broken_site 2 = ParseException) \<and>
   scrape_single_page root_join (broken_site 2) = ([], False) \<and>
   pagination_loop root_join broken_site 1 None 2 0 [[(''phone_name'', ''A'')]] [1] =
     Some ([[(''phone_name'', ''A'')]], [1, 2])"
proof -
  have h: "broken_site 2 = RequestException \<or> broken_site 2 = ParseException"
    by (simp add: broken_site_def)
  show ?thesis
    using h exception_page_ends_pagination[where site = broken_site and p = 2 and uj = root_join
        and sp = 1 and mx = None and ce = 0 and acc = "[[(''phone_name'', ''A'')]]" and req = "[1]"]
    by simp
qed

text \<open>
  C5: start at page 1 with no page limit below six. If pages 1 to 3 yield records and
  pages 4, 5 and 6 are fetched with a body longer than 1000 bytes but without any
  matched review item, the run requests exactly the pages 1 to 6 and returns the
  records of pages 1, 2 and 3 in this order.
\<close>

theorem pagination_stops_after_three_empty_pages:
  assumes r1: "fst (scrape_single_page uj (site 1)) \<noteq> []"
    and r2: "fst (scrape_single_page uj (site 2)) \<noteq> []"
    and r3: "fst (scrape_single_page uj (site 3)) \<noteq> []"
    and e4: "site 4 = Fetched pg4" "select_review_items pg4 = []" "content_length pg4 > 1000"
    and e5: "site 5 = Fetched pg5" "select_review_items pg5 = []" "content_length pg5 > 1000"
    and e6: "site 6 = Fetched pg6" "select_review_items pg6 = []" "content_length pg6 > 1000"
    and mx: "case max_pages of None \<Rightarrow> True | Some m \<Rightarrow> m = 0 \<or> 6 \<le> m"
  shows "scrape_gsmarena_reviews uj site 1 max_pages =
           Some (fst (scrape_single_page uj (site 1)) @ fst (scrape_single_page uj (site 2))
                 @ fst (scrape_single_page uj (site 3)), [1, 2, 3, 4, 5, 6])"
proof -
  have s4: "scrape_single_page uj (site 4) = ([], True)"
    and s5: "scrape_single_page uj (site 5) = ([], True)"
    and s6: "scrape_single_page uj (site 6) = ([], True)"
    using e4 e5 e6 by (simp_all add: scrape_single_page_def)
  obtain a1 c1 a2 c2 a3 c3 where
    s1: "scrape_single_page uj (site 1) = (a1, c1)" and
    s2: "scrape_single_page uj (site 2) = (a2, c2)" and
    s3: "scrape_single_page uj (site 3) = (a3, c3)"
    by (metis surj_pair)
  note lim = limit_small[OF mx]
  let ?L = "pagination_loop uj site 1 max_pages"
  have "?L 1 0 [] [] = ?L 2 0 a1 [1]"
    using loop_records[of uj site 1 a1 c1 max_pages 1 0 "[]" "[]"] r1 s1 lim[of 1] by simp
  also have "\<dots> = ?L 3 0 (a1 @ a2) [1, 2]"
    using loop_records[of uj site 2 a2 c2 max_pages 1 0 a1 "[1]"] r2 s2 lim[of 2] by simp
  also have "\<dots> = ?L 4 0 (a1 @ a2 @ a3) [1, 2, 3]"
    using loop_records[of uj site 3 a3 c3 max_pages 1 0 "a1 @ a2" "[1, 2]"] r3 s3 lim[of 3] by simp
  also have "\<dots> = ?L 5 1 (a1 @ a2 @ a3) [1, 2, 3, 4]"
    using loop_empty_continue[of uj site 4 0 max_pages 1 "a1 @ a2 @ a3" "[1, 2, 3]"] s4 lim[of 4]
    by (simp add: max_consecutive_empty_def numeral_2_eq_2)
  also have "\<dots> = ?L 6 2 (a1 @ a2 @ a3) [1, 2, 3, 4, 5]"
    using loop_empty_continue[of uj site 5 1 max_pages 1 "a1 @ a2 @ a3" "[1, 2, 3, 4]"] s5 lim[of 5]
    by (simp add: max_consecutive_empty_def numeral_2_eq_2)
  also have "\<dots> = Some (a1 @ a2 @ a3, [1, 2, 3, 4, 5, 6])"
    using loop_empty_stop[of uj site 6 True 2 1 max_pages "a1 @ a2 @ a3" "[1, 2, 3, 4, 5]"] s6
    by (simp add: max_consecutive_empty_def numeral_2_eq_2)
  finally show ?thesis
    by (simp add: scrape_gsmarena_reviews_def s1 s2 s3)
qed

theorem pagination_stops_after_three_empty_pages_witness:
  "demo_site 7 = full_page ''Z'' \<and>
   scrape_gsmarena_reviews root_join demo_site 1 None =
     Some ([[(''phone_name'', ''A''), (''review_url'', ''https://www.gsmarena.com/x-review-1.php'')],
            [(''phone_name'', ''B''), (''review_url'', ''https://www.gsmarena.com/x-review-1.php'')],
            [(''phone_name'', ''C''), (''review_url'', ''https://www.gsmarena.com/x-review-1.php'')]],
           [1, 2, 3, 4, 5, 6])"
  using pagination_stops_after_three_empty_pages
    [of root_join demo_site empty_page empty_page empty_page None]
  by (simp add: demo_site_def scrape_full_page empty_page_def select_review_items_def)

section \<open>Properties of the download loop and of the batch\<close>


lemma download_loop_paths:
  "fst (download_loop up net dir idx urls dl att) =
     dl @ map (\<lambda>(n, u). path_join dir (spec_slot_filename up n u))
            (filter (\<lambda>(n, u). download_image (net u (path_join dir (spec_slot_filename up n u))))
               (zip [idx ..< idx + length urls] urls))"
proof (induction urls arbitrary: idx dl att)
  case Nil
  then show ?case by simp
next
  case (Cons u urls)
  have "[idx ..< idx + length (u # urls)] = idx # [Suc idx ..< Suc idx + length urls]"
    by (simp add: upt_rec)
  then show ?case
    using Cons[of "Suc idx"] by (auto simp: Let_def spec_slot_filename_def image_ext_def)
qed

lemma zip_positions:
  "zip [1 ..< 1 + length urls] urls = map (\<lambda>k. (k + 1, urls ! k)) [0 ..< length urls]"
  by (rule nth_equalityI) (simp_all del: upt_Suc)

lemma update_entries:
  "set (AList.update k v al) \<subseteq> insert (k, v) (set al)"
  by (induction al) auto

lemma process_phone_entries:
  assumes "\<forall>(k, en) \<in> set (results st). entry_ok en"
    and "process_phone e dir mi st ph = Inr st'"
  shows "\<forall>(k, en) \<in> set (results st'). entry_ok en"
proof (cases "spec_url ph = []")
  case True
  with assms(2) have "results st' = results st" by (auto simp: process_phone_def)
  with assms(1) show ?thesis by simp
next
  case False
  with assms(2) obtain paths att info where
    d: "download_phone_images e (phone_name ph) (spec_url ph) dir mi = Inr ((paths, att), info)"
    by (auto simp: process_phone_def split: sum.splits)
  show ?thesis
  proof (cases "paths = []")
    case True
    with assms(2) False d have "results st' = results st" by (auto simp: process_phone_def)
    with assms(1) show ?thesis by simp
  next
    case ne: False
    let ?en = "\<lparr> entry_spec_url = spec_url ph, image_count = length paths, image_paths = paths,
                  entry_clean_info = info \<rparr>"
    have "entry_ok ?en" using ne by (cases paths) (simp_all add: entry_ok_def)
    moreover have "results st' = AList.update (phone_name ph) ?en (results st)"
      using assms(2) False d ne by (auto simp: process_phone_def)
    ultimately show ?thesis
      using assms(1) update_entries[of "phone_name ph" ?en "results st"] by auto
  qed
qed

lemma process_all_entries:
  assumes "\<forall>(k, en) \<in> set (results st). entry_ok en"
    and "process_all e dir mi st phs = Inr r"
  shows "\<forall>(k, en) \<in> set (results r). entry_ok en"
  using assms
proof (induction phs arbitrary: st)
  case Nil
  then show ?case by simp
next
  case (Cons ph phs)
  from Cons.prems(2) obtain st' where s: "process_phone e dir mi st ph = Inr st'"
    and r: "process_all e dir mi st' phs = Inr r"
    by (auto split: sum.splits)
  from Cons.IH[OF process_phone_entries[OF Cons.prems(1) s] r] show ?case .
qed

text \<open>With a phone name and directories that can be created, the result of
  \<open>download_phone_images\<close> is made of the outcomes of the phone's own downloads.\<close>

lemma no_pictures_url_for_empty: "construct_pictures_url [] = None"
  by code_simp

lemma download_phone_images_paths:
  assumes "phone_name ph = Some name" "\<forall>p. makedirs_ok e p"
  shows "\<exists>att. download_phone_images e (phone_name ph) (spec_url ph) dir mi =
           Inr ((succeeded_paths e dir mi ph, att), clean_phone_name name)"
proof (cases "construct_pictures_url (spec_url ph)")
  case None
  then show ?thesis using assms(1)
    by (simp add: download_phone_images_def succeeded_paths_def)
next
  case (Some pu)
  define urls where "urls = scrape_images_from_pictures_page (urljoin_root e) (pictures_site e pu) mi"
  define d where "d = path_join dir (safe_name (clean_phone_name name))"
  have sp: "succeeded_paths e dir mi ph =
      map (\<lambda>k. path_join d (spec_slot_filename (url_path e) (k + 1) (urls ! k)))
        (filter (\<lambda>k. download_image (image_net e (urls ! k)
                   (path_join d (spec_slot_filename (url_path e) (k + 1) (urls ! k)))))
           [0 ..< length urls])"
    using assms(1) Some by (simp add: succeeded_paths_def Let_def urls_def d_def)
  show ?thesis
  proof (cases "urls = []")
    case True
    then have "succeeded_paths e dir mi ph = []" unfolding sp by simp
    then show ?thesis using assms(1) Some True
      by (simp add: download_phone_images_def Let_def urls_def[symmetric])
  next
    case False
    have dl: "download_phone_images e (phone_name ph) (spec_url ph) dir mi =
        Inr (download_loop (url_path e) (image_net e) d 1 urls [] [], clean_phone_name name)"
      using assms Some False
      by (simp add: download_phone_images_def Let_def urls_def[symmetric] d_def[symmetric])
    have "fst (download_loop (url_path e) (image_net e) d 1 urls [] []) = succeeded_paths e dir mi ph"
      unfolding sp download_loop_paths zip_positions
      by (simp add: filter_map o_def del: upt_Suc)
    then have "download_loop (url_path e) (image_net e) d 1 urls [] [] =
        (succeeded_paths e dir mi ph, snd (download_loop (url_path e) (image_net e) d 1 urls [] []))"
      by (metis prod.collapse)
    with dl show ?thesis by auto
  qed
qed

lemma process_phone_by_own_downloads:
  assumes "phone_name ph \<noteq> None" "\<forall>p. makedirs_ok e p"
  shows "process_phone e dir mi st ph =
           Inr (if succeeded_paths e dir mi ph \<noteq> []
                then st\<lparr> results := AList.update (phone_name ph) (spec_entry e dir mi ph) (results st),
                         successful := successful st + 1 \<rparr>
                else st\<lparr> failed := failed st + 1 \<rparr>)"
proof -
  from assms(1) obtain name where n: "phone_name ph = Some name" by auto
  from download_phone_images_paths[OF n assms(2), of dir mi] obtain att where
    d: "download_phone_images e (phone_name ph) (spec_url ph) dir mi =
          Inr ((succeeded_paths e dir mi ph, att), clean_phone_name name)"
    by blast
  show ?thesis
  proof (cases "spec_url ph = []")
    case True
    then have "succeeded_paths e dir mi ph = []"
      by (simp add: succeeded_paths_def no_pictures_url_for_empty split: option.splits)
    with True show ?thesis by (simp add: process_phone_def)
  next
    case False
    then show ?thesis using d n
      by (simp add: process_phone_def spec_entry_def)
  qed
qed

lemma process_all_by_own_downloads:
  assumes "\<forall>ph \<in> set phs. phone_name ph \<noteq> None" "\<forall>p. makedirs_ok e p"
  shows "process_all e dir mi st phs =
           Inr (st\<lparr> results := spec_manifest e dir mi (results st) phs,
                    successful := successful st +
                      length (filter (\<lambda>ph. succeeded_paths e dir mi ph \<noteq> []) phs),
                    failed := failed st +
                      length (filter (\<lambda>ph. succeeded_paths e dir mi ph = []) phs) \<rparr>)"
  using assms(1)
proof (induction phs arbitrary: st)
  case Nil
  show ?case by simp
next
  case (Cons ph phs)
  then have n: "phone_name ph \<noteq> None" and rest: "\<forall>ph \<in> set phs. phone_name ph \<noteq> None"
    by simp_all
  show ?case
  proof (cases "succeeded_paths e dir mi ph \<noteq> []")
    case True
    then show ?thesis
      using process_phone_by_own_downloads[OF n assms(2), of dir mi st] Cons.IH[OF rest]
      by simp
  next
    case False
    then show ?thesis
      using process_phone_by_own_downloads[OF n assms(2), of dir mi st] Cons.IH[OF rest]
      by simp
  qed
qed


lemma demo_flaky_paths:
  "map (\<lambda>k. path_join ''images/x'' (spec_slot_filename demo_url_path (k + 1) (demo_urls ! k)))
     (filter (\<lambda>k. download_image (flaky_net (demo_urls ! k)
                (path_join ''images/x'' (spec_slot_filename demo_url_path (k + 1) (demo_urls ! k)))))
        [0 ..< length demo_urls]) =
     [''images/x/angle_2.png'', ''images/x/angle_3.jpg'']"
  by code_simp

lemma demo_two_rows_named:
  "\<forall>ph \<in> set (selected_phones two_rows None 0). phone_name ph \<noteq> None"
  by code_simp

lemma demo_two_rows_batch:
  "\<lparr> results = spec_manifest (demo_env first_dead_net) ''images'' 5 [] (selected_phones two_rows None 0),
     successful = length (filter (\<lambda>ph. succeeded_paths (demo_env first_dead_net) ''images'' 5 ph \<noteq> [])
                            (selected_phones two_rows None 0)),
     failed = length (filter (\<lambda>ph. succeeded_paths (demo_env first_dead_net) ''images'' 5 ph = [])
                        (selected_phones two_rows None 0)) \<rparr> =
   \<lparr> results =
       [(Some ''Samsung Galaxy S24 review'',
         \<lparr> entry_spec_url = ''https://www.gsmarena.com/samsung_galaxy_s24-12773.php'',
           image_count = 1,
           image_paths = [''images/Samsung Galaxy S24/angle_2.png''],
           entry_clean_info =
             \<lparr> safe_name = ''Samsung Galaxy S24'', display_name = ''Samsung Galaxy S24'',
               brand = ''Samsung'', model = ''Galaxy S24'' \<rparr> \<rparr>)],
     successful = 1, failed = 1 \<rparr>"
  by code_simp

lemma demo_flaky_results:
  "process_phones_from_csv (demo_env flaky_net) (Some demo_rows) ''images'' None 5 0 =
     Inr \<lparr> results =
             [(Some ''vivo X300 Pro 5G Review'',
               \<lparr> entry_spec_url = ''https://www.gsmarena.com/vivo_x300_pro_5g-14225.php'',
                 image_count = 1,
                 image_paths = [''images/vivo X300 Pro 5G/angle_2.png''],
                 entry_clean_info =
                   \<lparr> safe_name = ''vivo X300 Pro 5G'', display_name = ''vivo X300 Pro 5G'',
                     brand = ''vivo'', model = ''X300 Pro 5G'' \<rparr> \<rparr>)],
           successful = 1, failed = 0 \<rparr>"
  by code_simp

lemma demo_dead_download:
  "download_phone_images (demo_env dead_net) (phone_name demo_phone) (spec_url demo_phone)
     ''images'' 5 =
   Inr (([], [''main.jpg'', ''angle_2.png'']),
        \<lparr> safe_name = ''vivo X300 Pro 5G'', display_name = ''vivo X300 Pro 5G'',
          brand = ''vivo'', model = ''X300 Pro 5G'' \<rparr>)"
  by code_simp

text \<open>A row without a cell for \<open>phone_name\<close> is kept by the reader, and the batch ends
  at it with the \<open>TypeError\<close> of \<open>clean_phone_name\<close>: the second row is never reached.\<close>

lemma short_row_ends_batch:
  "process_phones_from_csv (demo_env flaky_net) (Some short_rows) ''images'' None 5 0 =
     Inl TypeError"
  by code_simp



text \<open>
  C6, as stated, fails: \<open>raise_for_status\<close> raises for the status codes 400 to 599
  only. A response with status 300 and a non-empty body is not a 2xx response, yet
  \<open>download_image\<close> reports success and the path is added.
\<close>

theorem non_2xx_download_counterexample:
  "\<not> (200 \<le> (300::nat) \<and> (300::nat) < 300) \<and>
   download_image (Response 300 2048 True) \<and>
   download_loop demo_url_path (\<lambda>u p. Response 300 2048 True) ''images/x'' 1
     [''https://www.gsmarena.com/vv/bigpic/a.jpg''] [] [] = ([''images/x/main.jpg''], [''main.jpg''])"
  by code_simp

text \<open>
  C6, amended: \<open>download_image\<close> reports success exactly when a response arrives whose
  status is not in 400 to 599, the file is written without an exception and it is not
  empty; so it reports failure when the request raises, the status is 4xx or 5xx,
  writing fails or the saved file has zero length. The returned list consists of the
  save paths of exactly the slots whose own download succeeded, in slot order: a
  failed slot adds nothing and changes no other slot. And no outcome of a download
  stops or changes the rest of the batch: when every row has a phone name and the
  directories can be created (nothing raises outside \<open>download_image\<close>), the batch
  returns, every selected phone is processed, and the entry of a phone, and whether
  it counts as successful or failed, are decided by the downloads of that phone
  alone.
\<close>

theorem failed_download_is_skipped:
  "(download_image outcome \<longleftrightarrow>
      (\<exists>st n ok. outcome = Response st n ok \<and> \<not> (400 \<le> st \<and> st < 600) \<and> ok \<and> 0 < n)) \<and>
   fst (download_loop up net dir 1 urls [] []) =
     map (\<lambda>k. path_join dir (spec_slot_filename up (k + 1) (urls ! k)))
       (filter (\<lambda>k. download_image (net (urls ! k) (path_join dir (spec_slot_filename up (k + 1) (urls ! k)))))
          [0 ..< length urls]) \<and>
   ((\<forall>p. makedirs_ok e p) \<and> (\<forall>ph \<in> set (selected_phones rows mp sf). phone_name ph \<noteq> None) \<longrightarrow>
      process_phones_from_csv e (Some rows) images_dir mp mi sf =
        Inr \<lparr> results = spec_manifest e images_dir mi [] (selected_phones rows mp sf),
              successful = length (filter (\<lambda>ph. succeeded_paths e images_dir mi ph \<noteq> [])
                                     (selected_phones rows mp sf)),
              failed = length (filter (\<lambda>ph. succeeded_paths e images_dir mi ph = [])
                                 (selected_phones rows mp sf)) \<rparr>)"
proof (intro conjI impI)
  show "download_image outcome \<longleftrightarrow>
      (\<exists>st n ok. outcome = Response st n ok \<and> \<not> (400 \<le> st \<and> st < 600) \<and> ok \<and> 0 < n)"
    by (cases outcome) (auto simp: download_image_def raise_for_status_raises_def)
next
  show "fst (download_loop up net dir 1 urls [] []) =
     map (\<lambda>k. path_join dir (spec_slot_filename up (k + 1) (urls ! k)))
       (filter (\<lambda>k. download_image (net (urls ! k) (path_join dir (spec_slot_filename up (k + 1) (urls ! k)))))
          [0 ..< length urls])"
    unfolding download_loop_paths zip_positions
    by (simp add: filter_map o_def del: upt_Suc)
next
  assume h: "(\<forall>p. makedirs_ok e p) \<and> (\<forall>ph \<in> set (selected_phones rows mp sf). phone_name ph \<noteq> None)"
  then have mk: "\<forall>p. makedirs_ok e p"
    and nm: "\<forall>ph \<in> set (selected_phones rows mp sf). phone_name ph \<noteq> None"
    by blast+
  show "process_phones_from_csv e (Some rows) images_dir mp mi sf =
        Inr \<lparr> results = spec_manifest e images_dir mi [] (selected_phones rows mp sf),
              successful = length (filter (\<lambda>ph. succeeded_paths e images_dir mi ph \<noteq> [])
                                     (selected_phones rows mp sf)),
              failed = length (filter (\<lambda>ph. succeeded_paths e images_dir mi ph = [])
                                 (selected_phones rows mp sf)) \<rparr>"
    using mk process_all_by_own_downloads[OF nm mk, of images_dir mi
        "\<lparr> results = [], successful = 0, failed = 0 \<rparr>"]
    by (simp add: process_phones_from_csv_def)
qed

theorem failed_download_is_skipped_witness:
  "\<not> download_image (Response 404 0 True) \<and>
   fst (download_loop demo_url_path flaky_net ''images/x'' 1 demo_urls [] []) =
     [''images/x/angle_2.png'', ''images/x/angle_3.jpg''] \<and>
   process_phones_from_csv (demo_env first_dead_net) (Some two_rows) ''images'' None 5 0 =
     Inr \<lparr> results =
             [(Some ''Samsung Galaxy S24 review'',
               \<lparr> entry_spec_url = ''https://www.gsmarena.com/samsung_galaxy_s24-12773.php'',
                 image_count = 1,
                 image_paths = [''images/Samsung Galaxy S24/angle_2.png''],
                 entry_clean_info =
                   \<lparr> safe_name = ''Samsung Galaxy S24'', display_name = ''Samsung Galaxy S24'',
                     brand = ''Samsung'', model = ''Galaxy S24'' \<rparr> \<rparr>)],
           successful = 1, failed = 1 \<rparr>"
proof -
  have mk: "\<forall>p. makedirs_ok (demo_env first_dead_net) p" by (simp add: demo_env_def)
  note t = failed_download_is_skipped[of "Response 404 0 True" demo_url_path flaky_net "''images/x''"
      demo_urls "demo_env first_dead_net" two_rows None 0 "''images''" 5]
  from t have a: "\<not> download_image (Response 404 0 True)" by simp
  from t demo_flaky_paths
  have b: "fst (download_loop demo_url_path flaky_net ''images/x'' 1 demo_urls [] []) =
     [''images/x/angle_2.png'', ''images/x/angle_3.jpg'']"
    by simp
  from t mk demo_two_rows_named
  have "process_phones_from_csv (demo_env first_dead_net) (Some two_rows) ''images'' None 5 0 =
      Inr \<lparr> results = spec_manifest (demo_env first_dead_net) ''images'' 5 []
                         (selected_phones two_rows None 0),
            successful = length (filter (\<lambda>ph. succeeded_paths (demo_env first_dead_net) ''images'' 5 ph \<noteq> [])
                                   (selected_phones two_rows None 0)),
            failed = length (filter (\<lambda>ph. succeeded_paths (demo_env first_dead_net) ''images'' 5 ph = [])
                               (selected_phones two_rows None 0)) \<rparr>"
    by blast
  then have c: "process_phones_from_csv (demo_env first_dead_net) (Some two_rows) ''images'' None 5 0 =
     Inr \<lparr> results =
             [(Some ''Samsung Galaxy S24 review'',
               \<lparr> entry_spec_url = ''https://www.gsmarena.com/samsung_galaxy_s24-12773.php'',
                 image_count = 1,
                 image_paths = [''images/Samsung Galaxy S24/angle_2.png''],
                 entry_clean_info =
                   \<lparr> safe_name = ''Samsung Galaxy S24'', display_name = ''Samsung Galaxy S24'',
                     brand = ''Samsung'', model = ''Galaxy S24'' \<rparr> \<rparr>)],
           successful = 1, failed = 1 \<rparr>"
    unfolding demo_two_rows_batch .
  from a b c show ?thesis by (intro conjI)
qed

text \<open>
  C10: every entry of the manifest that \<open>process_phones_from_csv\<close> returns has
  \<open>image_count\<close> equal to the length of its \<open>image_paths\<close> and at least 1; and a phone
  whose list of downloaded paths is empty (also when image URLs were discovered and
  every download failed) is counted as failed and leaves the manifest as it was.
\<close>

theorem manifest_entries_have_images:
  "(process_phones_from_csv e csv_rows images_dir mp mi sf = Inr r \<longrightarrow>
      (\<forall>(name, en) \<in> set (results r).
          image_count en = length (image_paths en) \<and> 1 \<le> image_count en)) \<and>
   (download_phone_images e (phone_name ph) (spec_url ph) images_dir mi = Inr (([], att), info) \<longrightarrow>
      process_phone e images_dir mi st ph = Inr (st\<lparr> failed := failed st + 1 \<rparr>))"
proof (intro conjI impI)
  assume r: "process_phones_from_csv e csv_rows images_dir mp mi sf = Inr r"
  have init: "\<forall>(k, en) \<in> set (results \<lparr> results = [], successful = 0, failed = 0 \<rparr>). entry_ok en"
    by simp
  have "\<forall>(k, en) \<in> set (results r). entry_ok en"
  proof (cases csv_rows)
    case None
    with r show ?thesis by (auto simp: process_phones_from_csv_def)
  next
    case (Some rows)
    with r have "process_all e images_dir mi \<lparr> results = [], successful = 0, failed = 0 \<rparr>
        (selected_phones rows mp sf) = Inr r"
      by (auto simp: process_phones_from_csv_def split: if_splits)
    from process_all_entries[OF init this] show ?thesis .
  qed
  then show "\<forall>(name, en) \<in> set (results r).
      image_count en = length (image_paths en) \<and> 1 \<le> image_count en"
    by (simp add: entry_ok_def)
next
  assume "download_phone_images e (phone_name ph) (spec_url ph) images_dir mi = Inr (([], att), info)"
  then show "process_phone e images_dir mi st ph = Inr (st\<lparr> failed := failed st + 1 \<rparr>)"
    by (simp add: process_phone_def)
qed

theorem manifest_entries_have_images_witness:
  "process_phones_from_csv (demo_env flaky_net) (Some demo_rows) ''images'' None 5 0 =
     Inr \<lparr> results =
             [(Some ''vivo X300 Pro 5G Review'',
               \<lparr> entry_spec_url = ''https://www.gsmarena.com/vivo_x300_pro_5g-14225.php'',
                 image_count = 1,
                 image_paths = [''images/vivo X300 Pro 5G/angle_2.png''],
                 entry_clean_info =
                   \<lparr> safe_name = ''vivo X300 Pro 5G'', display_name = ''vivo X300 Pro 5G'',
                     brand = ''vivo'', model = ''X300 Pro 5G'' \<rparr> \<rparr>)],
           successful = 1, failed = 0 \<rparr> \<and>
   image_count (snd (hd [(Some ''vivo X300 Pro 5G Review'',
               \<lparr> entry_spec_url = ''https://www.gsmarena.com/vivo_x300_pro_5g-14225.php'',
                 image_count = 1,
                 image_paths = [''images/vivo X300 Pro 5G/angle_2.png''],
                 entry_clean_info =
                   \<lparr> safe_name = ''vivo X300 Pro 5G'', display_name = ''vivo X300 Pro 5G'',
                     brand = ''vivo'', model = ''X300 Pro 5G'' \<rparr> \<rparr>)])) = 1 \<and>
   download_phone_images (demo_env dead_net) (phone_name demo_phone) (spec_url demo_phone)
     ''images'' 5 =
     Inr (([], [''main.jpg'', ''angle_2.png'']),
          \<lparr> safe_name = ''vivo X300 Pro 5G'', display_name = ''vivo X300 Pro 5G'',
            brand = ''vivo'', model = ''X300 Pro 5G'' \<rparr>) \<and>
   process_phone (demo_env dead_net) ''images'' 5 \<lparr> results = [], successful = 0, failed = 0 \<rparr>
     demo_phone = Inr \<lparr> results = [], successful = 0, failed = 1 \<rparr>"
proof -
  let ?r = "\<lparr> results =
             [(Some ''vivo X300 Pro 5G Review'',
               \<lparr> entry_spec_url = ''https://www.gsmarena.com/vivo_x300_pro_5g-14225.php'',
                 image_count = 1,
                 image_paths = [''images/vivo X300 Pro 5G/angle_2.png''],
                 entry_clean_info =
                   \<lparr> safe_name = ''vivo X300 Pro 5G'', display_name = ''vivo X300 Pro 5G'',
                     brand = ''vivo'', model = ''X300 Pro 5G'' \<rparr> \<rparr>)],
           successful = 1, failed = 0 \<rparr>"
  have all: "\<forall>(name, en) \<in> set (results ?r). image_count en = length (image_paths en) \<and> 1 \<le> image_count en"
    using manifest_entries_have_images[where e = "demo_env flaky_net" and csv_rows = "Some demo_rows"
      and images_dir = "''images''" and mp = None and mi = 5 and sf = 0 and r = ?r]
      demo_flaky_results
    by blast
  have c: "image_count (snd (hd (results ?r))) = 1" by simp
  have d: "process_phone (demo_env dead_net) ''images'' 5 \<lparr> results = [], successful = 0, failed = 0 \<rparr>
     demo_phone = Inr \<lparr> results = [], successful = 0, failed = 1 \<rparr>"
    using manifest_entries_have_images[where e = "demo_env dead_net" and images_dir = "''images''"
      and mi = 5 and ph = demo_phone and st = "\<lparr> results = [], successful = 0, failed = 0 \<rparr>"
      and att = "[''main.jpg'', ''angle_2.png'']"
      and info = "\<lparr> safe_name = ''vivo X300 Pro 5G'', display_name = ''vivo X300 Pro 5G'',
            brand = ''vivo'', model = ''X300 Pro 5G'' \<rparr>"]
      demo_dead_download
    by simp
  from demo_flaky_results c d demo_dead_download show ?thesis by simp
qed

section \<open>Properties of scrape\_specifications\<close>

text \<open>The primary scan never adds or removes an entry that is not a category, so the
  length of the dictionary is the number of categories, plus one when the page title
  was found.\<close>

lemma length_split_names:
  "length specs = length (filter is_name specs) + length (categories specs)"
  by (induction specs) (auto simp: categories_def is_name_def split: spec_value.splits)

lemma names_update_category:
  assumes "map_of al k = None \<or> (\<exists>d. map_of al k = Some (Category d))"
  shows "filter is_name (AList.update k (Category d') al) = filter is_name al"
  using assms
  by (induction al) (auto simp: is_name_def split: if_splits)

lemma set_field_names:
  assumes "set_field c k v specs = Some specs'"
  shows "filter is_name specs' = filter is_name specs"
  using assms names_update_category[of specs c]
  by (auto simp: set_field_def split: option.splits spec_value.splits)

lemma rows_loop_names:
  assumes "rows_loop c rows specs = Some specs'"
  shows "filter is_name specs' = filter is_name specs"
  using assms
proof (induction rows arbitrary: specs)
  case Nil then show ?case by simp
next
  case (Cons cells rows)
  define nm where "nm = re_sub match_spaces '' '' (cells ! 0)"
  define vl where "vl = re_sub match_spaces '' '' (cells ! 1)"
  show ?case
  proof (cases "length cells \<ge> 2 \<and> nm \<noteq> [] \<and> vl \<noteq> []")
    case True
    then have u: "rows_loop c (cells # rows) specs =
        (case set_field c nm vl specs of None \<Rightarrow> None | Some s' \<Rightarrow> rows_loop c rows s')"
      by (simp add: nm_def vl_def Let_def)
    from Cons.prems obtain s' where f: "set_field c nm vl specs = Some s'"
      and r: "rows_loop c rows s' = Some specs'"
      unfolding u by (cases "set_field c nm vl specs") simp_all
    from set_field_names[OF f] Cons.IH[OF r] show ?thesis by simp
  next
    case False
    then have "rows_loop c (cells # rows) specs = rows_loop c rows specs"
      by (auto simp: nm_def vl_def Let_def)
    with Cons.prems Cons.IH show ?thesis by simp
  qed
qed

lemma tables_loop_names:
  assumes "tables_loop ts specs = Some specs'"
  shows "filter is_name specs' = filter is_name specs"
  using assms
proof (induction ts arbitrary: specs)
  case Nil then show ?case by simp
next
  case (Cons t ts)
  define c where "c = (case previous_th t of Some h \<Rightarrow> h | None \<Rightarrow> ''General'')"
  define s1 where "s1 = (if c \<notin> fst ` set specs then AList.update c (Category []) specs else specs)"
  have unfold: "tables_loop (t # ts) specs =
      (case rows_loop c (table_rows t) s1 of None \<Rightarrow> None | Some s2 \<Rightarrow> tables_loop ts s2)"
    by (simp add: c_def s1_def Let_def)
  from Cons.prems obtain s2 where r: "rows_loop c (table_rows t) s1 = Some s2"
    and t: "tables_loop ts s2 = Some specs'"
    unfolding unfold by (cases "rows_loop c (table_rows t) s1") simp_all
  have "filter is_name s1 = filter is_name specs"
  proof (cases "c \<in> fst ` set specs")
    case True
    then show ?thesis by (simp add: s1_def)
  next
    case False
    then have "map_of specs c = None" by (simp add: map_of_eq_None_iff)
    then show ?thesis
      using False names_update_category[of specs c "[]"] by (simp add: s1_def)
  qed
  moreover have "filter is_name s2 = filter is_name s1" by (rule rows_loop_names[OF r])
  moreover have "filter is_name specs' = filter is_name s2" by (rule Cons.IH[OF t])
  ultimately show ?case by simp
qed

lemma primary_length:
  assumes "primary_method pg = Some specs"
  shows "length specs = (case phone_title pg of None \<Rightarrow> 0 | Some t \<Rightarrow> 1) + length (categories specs)"
proof -
  have "filter is_name specs = filter is_name (case phone_title pg of None \<Rightarrow> [] | Some t \<Rightarrow> [(''phone_name'', PhoneName t)])"
    by (rule tables_loop_names[OF assms[unfolded primary_method_def]])
  then have "length (filter is_name specs) = (case phone_title pg of None \<Rightarrow> 0 | Some t \<Rightarrow> 1)"
    by (simp add: is_name_def split: option.splits)
  then show ?thesis using length_split_names[of specs] by simp
qed

lemma demo_primary_one_category:
  "primary_method one_category_page =
     Some [(''phone_name'', PhoneName ''vivo X300 Pro''),
           (''General'', Category [(''Technology'', ''GSM / HSPA / LTE / 5G'')])]"
  by code_simp

lemma demo_primary_no_title:
  "primary_method no_title_page = Some [(''General'', Category [(''Technology'', ''GSM / HSPA / LTE / 5G'')])]"
  by code_simp

lemma demo_alternate_no_title:
  "alternate_method no_title_page [(''General'', Category [(''Technology'', ''GSM / HSPA / LTE / 5G'')])] =
     Some [(''General'', Category [(''Technology'', ''GSM / HSPA / LTE / 5G'')]),
           (''Network'', Category [(''Technology'', ''GSM / HSPA / LTE / 5G'')])]"
  by code_simp

text \<open>
  C9, as stated, fails. On a page with a title the primary scan of a single table
  produces exactly one category, yet the alternate method does not run: the result is
  the primary result, without the \<open>Network\<close> category that the alternate method
  finds in the specs container.
\<close>

theorem alternate_method_counterexample:
  "categories [(''phone_name'', PhoneName ''vivo X300 Pro''),
               (''General'', Category [(''Technology'', ''GSM / HSPA / LTE / 5G'')])] = [''General''] \<and>
   primary_method one_category_page =
     Some [(''phone_name'', PhoneName ''vivo X300 Pro''),
           (''General'', Category [(''Technology'', ''GSM / HSPA / LTE / 5G'')])] \<and>
   scrape_specifications (SpecPage one_category_page) =
     Some [(''phone_name'', PhoneName ''vivo X300 Pro''),
           (''General'', Category [(''Technology'', ''GSM / HSPA / LTE / 5G'')])] \<and>
   alternate_method one_category_page
       [(''phone_name'', PhoneName ''vivo X300 Pro''),
        (''General'', Category [(''Technology'', ''GSM / HSPA / LTE / 5G'')])] =
     Some [(''phone_name'', PhoneName ''vivo X300 Pro''),
           (''General'', Category [(''Technology'', ''GSM / HSPA / LTE / 5G'')]),
           (''Network'', Category [(''Technology'', ''GSM / HSPA / LTE / 5G'')])]"
  by code_simp

text \<open>
  C9, amended: the alternate method runs if and only if the dictionary has at most
  one entry after the primary scan, the \<open>phone_name\<close> entry counted: with a page
  title, iff the primary scan produced no category; without one, iff it produced at
  most one. When the primary scan produces two or more categories its result is
  returned unchanged.
\<close>

theorem alternate_method_runs_on_short_dictionary:
  assumes "primary_method pg = Some specs"
  shows "scrape_specifications (SpecPage pg) =
           (if (case phone_title pg of None \<Rightarrow> 0 | Some t \<Rightarrow> 1) + length (categories specs) \<le> 1
            then alternate_method pg specs else Some specs) \<and>
         (2 \<le> length (categories specs) \<longrightarrow> scrape_specifications (SpecPage pg) = Some specs)"
  using assms primary_length[OF assms]
  by (auto simp: scrape_specifications_def split: option.splits)

theorem alternate_method_runs_on_short_dictionary_witness:
  "primary_method no_title_page = Some [(''General'', Category [(''Technology'', ''GSM / HSPA / LTE / 5G'')])] \<and>
   scrape_specifications (SpecPage no_title_page) =
     Some [(''General'', Category [(''Technology'', ''GSM / HSPA / LTE / 5G'')]),
           (''Network'', Category [(''Technology'', ''GSM / HSPA / LTE / 5G'')])] \<and>
   scrape_specifications (SpecPage one_category_page) =
     Some [(''phone_name'', PhoneName ''vivo X300 Pro''),
           (''General'', Category [(''Technology'', ''GSM / HSPA / LTE / 5G'')])]"
  using alternate_method_runs_on_short_dictionary[OF demo_primary_no_title]
    alternate_method_runs_on_short_dictionary[OF demo_primary_one_category]
    demo_primary_no_title demo_alternate_no_title
  by (simp add: no_title_page_def one_category_page_def categories_def)

section \<open>Properties of scrape\_images\_from\_pictures\_page\<close>

lemma unseen_append:
  "unseen seen (xs @ ys) = unseen seen xs @ unseen (seen @ unseen seen xs) ys"
  by (induction xs arbitrary: seen) auto

lemma unseen_distinct:
  "distinct (unseen seen xs) \<and> set (unseen seen xs) \<inter> set seen = {}"
proof (induction xs arbitrary: seen)
  case Nil then show ?case by simp
next
  case (Cons x xs)
  show ?case using Cons[of seen] Cons[of "seen @ [x]"] by auto
qed

lemma links_loop_shape:
  "\<exists>ys. links_loop uj mx links acc = acc @ ys \<and> prefix ys (unseen acc (link_candidates uj links)) \<and>
        (ys = unseen acc (link_candidates uj links) \<or> int (length (acc @ ys)) \<ge> mx)"
proof (induction links arbitrary: acc)
  case Nil
  then show ?case by (simp add: link_candidates_def)
next
  case (Cons href links)
  show ?case
  proof (cases "has_image_ext href \<and> uj href \<notin> set acc")
    case False
    then have "links_loop uj mx (href # links) acc = links_loop uj mx links acc"
      and "unseen acc (link_candidates uj (href # links)) = unseen acc (link_candidates uj links)"
      by (auto simp: link_candidates_def Let_def)
    then show ?thesis using Cons[of acc] by simp
  next
    case True
    then have u: "unseen acc (link_candidates uj (href # links)) =
        uj href # unseen (acc @ [uj href]) (link_candidates uj links)"
      by (simp add: link_candidates_def)
    show ?thesis
    proof (cases "int (length (acc @ [uj href])) \<ge> mx")
      case True
      with \<open>has_image_ext href \<and> uj href \<notin> set acc\<close>
      have "links_loop uj mx (href # links) acc = acc @ [uj href]"
        by (simp add: Let_def)
      then show ?thesis using u True by (intro exI[of _ "[uj href]"]) simp
    next
      case False
      with \<open>has_image_ext href \<and> uj href \<notin> set acc\<close>
      have l: "links_loop uj mx (href # links) acc = links_loop uj mx links (acc @ [uj href])"
        by (simp add: Let_def)
      from Cons[of "acc @ [uj href]"] obtain ys where
        ys: "links_loop uj mx links (acc @ [uj href]) = (acc @ [uj href]) @ ys"
          "prefix ys (unseen (acc @ [uj href]) (link_candidates uj links))"
          "ys = unseen (acc @ [uj href]) (link_candidates uj links) \<or> int (length ((acc @ [uj href]) @ ys)) \<ge> mx"
        by blast
      show ?thesis
        using l ys u by (intro exI[of _ "uj href # ys"]) auto
    qed
  qed
qed


lemma imgs_loop_shape:
  "\<exists>ys. imgs_loop uj mx imgs acc = acc @ ys \<and> prefix ys (unseen acc (img_candidates uj imgs)) \<and>
        (ys = unseen acc (img_candidates uj imgs) \<or> int (length (acc @ ys)) \<ge> mx)"
proof (induction imgs arbitrary: acc)
  case Nil
  then show ?case by (simp add: img_candidates_def)
next
  case (Cons img imgs)
  define u where "u = full_size (uj (img_src img))"
  define cand where "cand \<longleftrightarrow>
     \<not> list_ex (\<lambda>skip. contains skip (lower (img_src img))) skip_markers \<and>
     img_src img \<noteq> [] \<and> has_image_ext (img_src img)"
  have cands: "img_candidates uj (img # imgs) =
      (if cand then u # img_candidates uj imgs else img_candidates uj imgs)"
    by (simp add: img_candidates_def cand_def u_def)
  show ?case
  proof (cases "cand \<and> u \<notin> set acc")
    case False
    then have "imgs_loop uj mx (img # imgs) acc = imgs_loop uj mx imgs acc"
      by (auto simp: cand_def u_def img_src_def Let_def)
    moreover have "unseen acc (img_candidates uj (img # imgs)) = unseen acc (img_candidates uj imgs)"
      using False by (auto simp: cands)
    ultimately show ?thesis using Cons[of acc] by simp
  next
    case True
    then have un: "unseen acc (img_candidates uj (img # imgs)) =
        u # unseen (acc @ [u]) (img_candidates uj imgs)"
      by (simp add: cands)
    show ?thesis
    proof (cases "int (length (acc @ [u])) \<ge> mx")
      case True
      with \<open>cand \<and> u \<notin> set acc\<close>
      have "imgs_loop uj mx (img # imgs) acc = acc @ [u]"
        by (auto simp: cand_def u_def img_src_def Let_def)
      then show ?thesis using un True by (intro exI[of _ "[u]"]) simp
    next
      case False
      with \<open>cand \<and> u \<notin> set acc\<close>
      have l: "imgs_loop uj mx (img # imgs) acc = imgs_loop uj mx imgs (acc @ [u])"
        by (auto simp: cand_def u_def img_src_def Let_def)
      from Cons[of "acc @ [u]"] obtain ys where
        ys: "imgs_loop uj mx imgs (acc @ [u]) = (acc @ [u]) @ ys"
          "prefix ys (unseen (acc @ [u]) (img_candidates uj imgs))"
          "ys = unseen (acc @ [u]) (img_candidates uj imgs) \<or> int (length ((acc @ [u]) @ ys)) \<ge> mx"
        by blast
      show ?thesis
        using l ys un by (intro exI[of _ "u # ys"]) auto
    qed
  qed
qed

lemma main_image_unseen: "unseen [] (main_image uj pg) = main_image uj pg"
  by (simp add: main_image_def split: option.splits)

lemma scrape_prefix:
  assumes "0 \<le> mx"
  shows "prefix (scrape_images_from_pictures_page uj (PicturesPage pg) mx) (discovery_order uj pg)"
proof -
  define c1 where "c1 = main_image uj pg"
  define c2 where "c2 = (case pictures_list pg of None \<Rightarrow> [] | Some pl \<Rightarrow> link_candidates uj (list_links pl))"
  define imgs where "imgs = (case pictures_list pg of None \<Rightarrow> page_imgs pg | Some pl \<Rightarrow> list_imgs pl)"
  define c3 where "c3 = img_candidates uj imgs"
  define urls2 where "urls2 = (case pictures_list pg of None \<Rightarrow> c1
                               | Some pl \<Rightarrow> links_loop uj mx (list_links pl) c1)"
  define urls3 where "urls3 = (if length urls2 \<le> 1 then imgs_loop uj mx imgs urls2 else urls2)"
  have res: "scrape_images_from_pictures_page uj (PicturesPage pg) mx = take (nat mx) urls3"
    unfolding urls3_def urls2_def c1_def imgs_def scrape_images_from_pictures_page_def
    using assms by (simp add: Let_def slice_to_def)
  have full: "discovery_order uj pg = c1 @ unseen c1 c2 @ unseen (c1 @ unseen c1 c2) c3"
    by (simp add: discovery_order_def unseen_append main_image_unseen c1_def c2_def c3_def imgs_def)
  obtain ys where ys: "urls2 = c1 @ ys" "prefix ys (unseen c1 c2)"
      "ys = unseen c1 c2 \<or> int (length (c1 @ ys)) \<ge> mx"
  proof (cases "pictures_list pg")
    case None
    then have "urls2 = c1 @ []" "c2 = []" by (simp_all add: urls2_def c2_def)
    then show ?thesis using that[of "[]"] by simp
  next
    case (Some pl)
    then have "urls2 = links_loop uj mx (list_links pl) c1" "c2 = link_candidates uj (list_links pl)"
      by (simp_all add: urls2_def c2_def)
    then show ?thesis using links_loop_shape[of uj mx "list_links pl" c1] that by auto
  qed
  show ?thesis
  proof (cases "ys = unseen c1 c2")
    case True
    have "prefix urls3 (discovery_order uj pg)"
    proof (cases "length urls2 \<le> 1")
      case False
      then show ?thesis using ys True by (simp add: urls3_def full)
    next
      case l: True
      obtain zs where zs: "imgs_loop uj mx imgs urls2 = urls2 @ zs" "prefix zs (unseen urls2 c3)"
        using imgs_loop_shape[of uj mx imgs urls2] c3_def by auto
      then show ?thesis using ys True l by (simp add: urls3_def full)
    qed
    then show ?thesis
      unfolding res using take_is_prefix prefix_order.trans by blast
  next
    case False
    with ys have big: "int (length urls2) \<ge> mx" by simp
    have p2: "prefix urls2 urls3"
    proof (cases "length urls2 \<le> 1")
      case False then show ?thesis by (simp add: urls3_def)
    next
      case True
      then show ?thesis using imgs_loop_shape[of uj mx imgs urls2] by (auto simp: urls3_def)
    qed
    then obtain zs where "urls3 = urls2 @ zs" by (auto simp: prefix_def)
    then have "take (nat mx) urls3 = take (nat mx) urls2" using big assms by simp
    moreover have "prefix urls2 (discovery_order uj pg)"
      using ys by (auto simp: full)
    ultimately show ?thesis
      unfolding res using take_is_prefix prefix_order.trans by metis
  qed
qed

lemma demo_scan_result:
  "scrape_images_from_pictures_page root_join (PicturesPage scan_page) 2 =
     [''https://www.gsmarena.com/vv/pics/a.jpg'', ''https://www.gsmarena.com/vv/bigpic/b.jpg'']"
  by code_simp

lemma demo_scan_order:
  "discovery_order root_join scan_page =
     [''https://www.gsmarena.com/vv/pics/a.jpg'', ''https://www.gsmarena.com/vv/bigpic/b.jpg'',
      ''https://www.gsmarena.com/vv/bigpic/c.jpg'']"
  by code_simp

text \<open>
  C4: for a maximum that is not negative, the list of image URLs has at most that
  many entries, has no duplicates, and is an initial segment of the order of
  discovery (main image, then picture-list links, then the images of the broadened
  scan, each URL at its first occurrence); it is empty when the request fails.
\<close>

theorem image_discovery_bounded_distinct_ordered:
  assumes "0 \<le> max_images"
  shows "int (length (scrape_images_from_pictures_page uj resp max_images)) \<le> max_images \<and>
         distinct (scrape_images_from_pictures_page uj resp max_images) \<and>
         (case resp of
            PicturesRequestFailed \<Rightarrow> scrape_images_from_pictures_page uj resp max_images = []
          | PicturesPage pg \<Rightarrow>
              prefix (scrape_images_from_pictures_page uj resp max_images) (discovery_order uj pg))"
proof (cases resp)
  case PicturesRequestFailed
  then show ?thesis using assms by (simp add: scrape_images_from_pictures_page_def)
next
  case (PicturesPage pg)
  have p: "prefix (scrape_images_from_pictures_page uj resp max_images) (discovery_order uj pg)"
    using scrape_prefix[OF assms] PicturesPage by simp
  have "distinct (discovery_order uj pg)"
    using unseen_distinct[of "[]"] by (simp add: discovery_order_def)
  with p have d: "distinct (scrape_images_from_pictures_page uj resp max_images)"
    by (auto simp: prefix_def)
  have "int (length (scrape_images_from_pictures_page uj resp max_images)) \<le> max_images"
    using assms PicturesPage by (simp add: scrape_images_from_pictures_page_def Let_def slice_to_def)
  with p d PicturesPage show ?thesis by simp
qed

theorem image_discovery_bounded_distinct_ordered_witness:
  "(0::int) \<le> 2 \<and>
   scrape_images_from_pictures_page root_join (PicturesPage scan_page) 2 =
     [''https://www.gsmarena.com/vv/pics/a.jpg'', ''https://www.gsmarena.com/vv/bigpic/b.jpg''] \<and>
   int (length (scrape_images_from_pictures_page root_join (PicturesPage scan_page) 2)) \<le> 2 \<and>
   distinct (scrape_images_from_pictures_page root_join (PicturesPage scan_page) 2) \<and>
   prefix (scrape_images_from_pictures_page root_join (PicturesPage scan_page) 2)
     (discovery_order root_join scan_page)"
proof -
  have h: "(0::int) \<le> 2" by simp
  show ?thesis
    using image_discovery_bounded_distinct_ordered[OF h, of root_join "PicturesPage scan_page"]
      demo_scan_result
    by simp
qed

section \<open>Properties of construct\_pictures\_url\<close>

text \<open>Searching from the left finds no occurrence of a literal that reaches into its
  last occurrence, when the first character of the literal does not occur again in
  it.\<close>

lemma contains_sublist: "contains sub s \<longleftrightarrow> sublist sub s"
  by (induction s) (simp_all add: sublist_Cons_right)

lemma overlap:
  assumes "prefix old (s @ old @ r)" "s \<noteq> []" "length s < length old"
  shows "hd old \<in> set (tl old)"
proof -
  from assms(1) have "old = take (length old) (s @ old @ r)"
    by (metis append_eq_conv_conj prefix_def)
  also have "\<dots> = s @ take (length old - length s) old"
    using assms(3) by simp
  finally have eq: "old = s @ take (length old - length s) old" .
  have "old ! length s = (s @ take (length old - length s) old) ! length s"
    using eq by simp
  also have "\<dots> = take (length old - length s) old ! 0"
    by (simp add: nth_append)
  also have "\<dots> = old ! 0" using assms(3) by simp
  also have "\<dots> = hd old" using assms(3) by (cases old) simp_all
  finally have "old ! length s = hd old" .
  moreover have "old ! length s \<in> set (tl old)"
    using assms(2,3) by (cases old; cases s) (simp_all)
  ultimately show ?thesis by simp
qed

lemma replace_suffix:
  assumes "old \<noteq> []" "hd old \<notin> set (tl old)" "\<not> sublist old s"
  shows "replace old [] (s @ old) = s"
  using assms(3)
proof (induction s)
  case Nil
  have "replace old [] [] = []" using assms(1) by (subst replace.simps) simp
  then show ?case using assms(1) by (subst replace.simps) simp
next
  case (Cons c cs)
  then have np: "\<not> prefix old (c # cs)" and ns: "\<not> sublist old cs"
    by (simp_all add: sublist_Cons_right)
  have "\<not> prefix old ((c # cs) @ old)"
  proof
    assume p: "prefix old ((c # cs) @ old)"
    show False
    proof (cases "length (c # cs) < length old")
      case True
      from overlap[of old "c # cs" "[]"] p True assms(2) show False by simp
    next
      case False
      with p have "prefix old (c # cs)"
        by (metis append_eq_conv_conj not_less prefix_def take_all_iff take_append prefixI)
      with np show False by simp
    qed
  qed
  then have "replace old [] ((c # cs) @ old) = c # replace old [] (cs @ old)"
    by (subst replace.simps) simp
  with Cons.IH[OF ns] show ?case by simp
qed


lemma split_from_no_occurrence:
  assumes "\<not> sublist sep s"
  shows "split_from sep cur s = [cur @ s]"
  using assms
proof (induction s arbitrary: cur)
  case Nil
  then show ?case by (subst split_from.simps) auto
next
  case (Cons c cs)
  then have "\<not> prefix sep (c # cs)" "\<not> sublist sep cs"
    by (simp_all add: sublist_Cons_right)
  then show ?case using Cons.IH[of "cur @ [c]"]
    by (subst split_from.simps) simp
qed

lemma split_from_nonempty: "split_from sep c s \<noteq> []"
proof (induction s arbitrary: c)
  case Nil
  show ?case by (subst split_from.simps) simp
next
  case (Cons x xs)
  show ?case using Cons[of "c @ [x]"] by (subst split_from.simps) simp
qed

lemma split_from_last:
  assumes "sep \<noteq> []" "hd sep \<notin> set (tl sep)" "\<not> sublist sep rest"
  shows "last (split_from sep cur (pre @ sep @ rest)) = rest"
proof (induction pre arbitrary: cur rule: length_induct)
  case (1 pre)
  show ?case
  proof (cases "prefix sep (pre @ sep @ rest)")
    case False
    then obtain c p where pre: "pre = c # p"
      by (cases pre) auto
    with False have "split_from sep cur (pre @ sep @ rest) = split_from sep (cur @ [c]) (p @ sep @ rest)"
      by (subst split_from.simps) simp
    moreover have "last (split_from sep (cur @ [c]) (p @ sep @ rest)) = rest"
      using 1 pre by simp
    ultimately show ?thesis by simp
  next
    case True
    then have st: "split_from sep cur (pre @ sep @ rest) =
        cur # split_from sep [] (drop (length sep) (pre @ sep @ rest))"
      using assms(1) by (subst split_from.simps) simp
    show ?thesis
    proof (cases "pre = []")
      case True
      then show ?thesis
        using st split_from_no_occurrence[OF assms(3), of "[]"] by simp
    next
      case False
      have "\<not> length pre < length sep"
        using overlap[OF True False] assms(2) by blast
      then have d: "drop (length sep) (pre @ sep @ rest) = drop (length sep) pre @ sep @ rest"
        by simp
      have "length (drop (length sep) pre) < length pre"
        using False assms(1) by simp
      with 1 have "last (split_from sep [] (drop (length sep) pre @ sep @ rest)) = rest"
        by blast
      then show ?thesis
        using st d split_from_nonempty[of sep "[]" "drop (length sep) pre @ sep @ rest"] by simp
    qed
  qed
qed

lemma contains_middle: "contains sep (pre @ sep @ rest)"
  by (simp add: contains_sublist)

lemma takeWhile_upto:
  "c \<notin> set xs \<Longrightarrow> takeWhile (\<lambda>x. x \<noteq> c) (xs @ c # ys) = xs"
  by (induction xs) auto

lemma dropWhile_upto:
  "c \<notin> set xs \<Longrightarrow> dropWhile (\<lambda>x. x \<noteq> c) (xs @ c # ys) = c # ys"
  by (induction xs) auto

lemma rsplit1_last:
  assumes "c \<notin> set b"
  shows "rsplit1 c (a @ c # b) = [a, b]"
  using assms takeWhile_upto[of c "rev b" "rev a"] dropWhile_upto[of c "rev b" "rev a"]
  by (simp add: rsplit1_def)

text \<open>
  C1: for a URL that ends, after \<open>gsmarena.com/\<close>, in \<open>slug-id.php\<close> (slug and id
  without a slash, the id without a hyphen, no further \<open>.php\<close> in the name), the
  result is \<open>https://www.gsmarena.com/slug-pictures-id.php\<close>; and for every input whose
  remainder, after the domain prefix and \<open>.php\<close> are stripped, has no hyphen, the
  result is \<open>None\<close>.
\<close>

theorem pictures_url_from_spec_url:
  "(CHR ''/'' \<notin> set (slug @ ident) \<and> CHR ''-'' \<notin> set ident \<and> \<not> contains ''.php'' (slug @ ''-'' @ ident) \<longrightarrow>
      construct_pictures_url (pre @ ''gsmarena.com/'' @ slug @ ''-'' @ ident @ ''.php'') =
        Some (''https://www.gsmarena.com/'' @ slug @ ''-pictures-'' @ ident @ ''.php'')) \<and>
   (CHR ''-'' \<notin> set (replace ''.php'' [] (if contains ''gsmarena.com/'' url
                                           then last (split ''gsmarena.com/'' url) else url)) \<longrightarrow>
      construct_pictures_url url = None)"
proof (intro conjI impI)
  assume h: "CHR ''/'' \<notin> set (slug @ ident) \<and> CHR ''-'' \<notin> set ident \<and> \<not> contains ''.php'' (slug @ ''-'' @ ident)"
  let ?rest = "slug @ ''-'' @ ident @ ''.php''"
  let ?url = "pre @ ''gsmarena.com/'' @ ?rest"
  have "CHR ''/'' \<notin> set ?rest" using h by simp
  then have nodom: "\<not> sublist ''gsmarena.com/'' ?rest"
    using set_mono_sublist[of "''gsmarena.com/''" ?rest] by auto
  have u: "last (split ''gsmarena.com/'' ?url) = ?rest"
    unfolding split_def by (rule split_from_last[OF _ _ nodom]) simp_all
  have "replace ''.php'' [] ((slug @ ''-'' @ ident) @ ''.php'') = slug @ ''-'' @ ident"
    using h by (intro replace_suffix) (simp_all add: contains_sublist)
  then have b: "replace ''.php'' [] ?rest = slug @ ''-'' @ ident" by simp
  have r: "rsplit1 CHR ''-'' (slug @ ''-'' @ ident) = [slug, ident]"
    using rsplit1_last[of "CHR ''-''" ident slug] h by simp
  show "construct_pictures_url ?url = Some (''https://www.gsmarena.com/'' @ slug @ ''-pictures-'' @ ident @ ''.php'')"
    unfolding construct_pictures_url_def Let_def
    using contains_middle[of "''gsmarena.com/''" pre ?rest] u b r by simp
next
  assume "CHR ''-'' \<notin> set (replace ''.php'' [] (if contains ''gsmarena.com/'' url
                                           then last (split ''gsmarena.com/'' url) else url))"
  then show "construct_pictures_url url = None"
    by (simp add: construct_pictures_url_def Let_def rsplit1_def)
qed

theorem pictures_url_from_spec_url_witness:
  "construct_pictures_url ''https://www.gsmarena.com/vivo_x300_pro_5g-14225.php'' =
     Some ''https://www.gsmarena.com/vivo_x300_pro_5g-pictures-14225.php'' \<and>
   construct_pictures_url ''https://www.gsmarena.com/vivo.php'' = None"
proof -
  have h1: "CHR ''/'' \<notin> set (''vivo_x300_pro_5g'' @ ''14225'') \<and> CHR ''-'' \<notin> set ''14225'' \<and>
      \<not> contains ''.php'' (''vivo_x300_pro_5g'' @ ''-'' @ ''14225'')"
    by code_simp
  have h2: "CHR ''-'' \<notin> set (replace ''.php'' []
      (if contains ''gsmarena.com/'' ''https://www.gsmarena.com/vivo.php''
       then last (split ''gsmarena.com/'' ''https://www.gsmarena.com/vivo.php'')
       else ''https://www.gsmarena.com/vivo.php''))"
    by code_simp
  show ?thesis
    using pictures_url_from_spec_url[of "''vivo_x300_pro_5g''" "''14225''" "''https://www.''"
        "''https://www.gsmarena.com/vivo.php''"] h1 h2
    by simp
qed

section \<open>Properties of sanitize\_filename and clean\_phone\_name\<close>

text \<open>
  C3: the claim is right about the forbidden characters, the length and the start of
  the name, and the code strips trailing spaces and dots, but it truncates afterwards.
  On the 101 characters \<open>a\<dots>a b\<close> (99 times \<open>a\<close>) the cut at 100 leaves a name that ends
  in a space.
\<close>

theorem sanitize_filename_truncation_leaves_space:
  "sanitize_filename (replicate 99 CHR ''a'' @ '' b'') = replicate 99 CHR ''a'' @ '' '' \<and>
   length (sanitize_filename (replicate 99 CHR ''a'' @ '' b'')) = 100 \<and>
   last (sanitize_filename (replicate 99 CHR ''a'' @ '' b'')) = CHR '' ''"
  by code_simp

text \<open>Substitution, whitespace collapsing, stripping, splitting and joining.\<close>

lemma re_sub_Nil: "re_sub m repl [] = []"
  by (subst re_sub.simps) (simp split: option.splits)

lemma re_sub_no_match:
  assumes "m (c # cs) = None"
  shows "re_sub m repl (c # cs) = c # re_sub m repl cs"
  using assms by (subst re_sub.simps) simp

lemma re_sub_match:
  assumes "m s = Some r" "length r < length s"
  shows "re_sub m repl s = repl @ re_sub m repl r"
  using assms by (subst re_sub.simps) simp

lemma re_sub_identity:
  assumes "\<And>t. suffix t s \<Longrightarrow> m t = None"
  shows "re_sub m repl s = s"
  using assms
proof (induction s)
  case Nil
  show ?case by (rule re_sub_Nil)
next
  case (Cons c cs)
  have "m (c # cs) = None" using Cons.prems[of "c # cs"] by simp
  moreover have "re_sub m repl cs = cs"
    using Cons.prems by (intro Cons.IH) (simp add: suffix_Cons)
  ultimately show ?case by (simp add: re_sub_no_match)
qed

lemma spaces_step_space:
  assumes "is_space c"
  shows "re_sub match_spaces '' '' (c # cs) = CHR '' '' # re_sub match_spaces '' '' (dropWhile is_space cs)"
proof -
  have l: "length (dropWhile is_space cs) < length (c # cs)"
    using length_dropWhile_le[of is_space cs] by simp
  have "match_spaces (c # cs) = Some (dropWhile is_space cs)"
    using assms by (simp add: match_spaces_def)
  from re_sub_match[of match_spaces "c # cs" "dropWhile is_space cs" "'' ''"] this l
  show ?thesis by simp
qed

lemma spaces_step_other:
  assumes "\<not> is_space c"
  shows "re_sub match_spaces '' '' (c # cs) = c # re_sub match_spaces '' '' cs"
  using assms by (intro re_sub_no_match) (simp add: match_spaces_def)

lemma collapsed_Cons_nonspace:
  "\<not> is_space c \<Longrightarrow> collapsed (c # s) = collapsed s"
  by (cases s) simp_all

lemma hd_dropWhile_space:
  "dropWhile is_space s \<noteq> [] \<Longrightarrow> \<not> is_space (hd (dropWhile is_space s))"
  using hd_dropWhile by blast

lemma collapse_result:
  "collapsed (re_sub match_spaces '' '' s) \<and>
   (s \<noteq> [] \<and> \<not> is_space (hd s) \<longrightarrow> re_sub match_spaces '' '' s \<noteq> [] \<and> \<not> is_space (hd (re_sub match_spaces '' '' s))) \<and>
   set (re_sub match_spaces '' '' s) \<subseteq> insert CHR '' '' (set s)"
proof (induction s rule: length_induct)
  case (1 s)
  show ?case
  proof (cases s)
    case Nil
    then show ?thesis by (simp add: re_sub_Nil)
  next
    case (Cons c cs)
    show ?thesis
    proof (cases "is_space c")
      case False
      have ih: "collapsed (re_sub match_spaces '' '' cs)"
        "set (re_sub match_spaces '' '' cs) \<subseteq> insert CHR '' '' (set cs)"
        using 1 Cons by simp_all
      then show ?thesis
        using False Cons by (auto simp: spaces_step_other collapsed_Cons_nonspace)
    next
      case True
      let ?r = "dropWhile is_space cs"
      have len: "length ?r < length s"
        using length_dropWhile_le[of is_space cs] Cons by simp
      with 1 have ih: "collapsed (re_sub match_spaces '' '' ?r)"
        "?r \<noteq> [] \<and> \<not> is_space (hd ?r) \<longrightarrow>
           re_sub match_spaces '' '' ?r \<noteq> [] \<and> \<not> is_space (hd (re_sub match_spaces '' '' ?r))"
        "set (re_sub match_spaces '' '' ?r) \<subseteq> insert CHR '' '' (set ?r)"
        by blast+
      have sub: "set ?r \<subseteq> set cs" by (rule set_dropWhileD[THEN subsetI])
      have c: "collapsed (CHR '' '' # re_sub match_spaces '' '' ?r)"
      proof (cases "re_sub match_spaces '' '' ?r")
        case Nil
        then show ?thesis by simp
      next
        case (Cons d ds)
        have "?r \<noteq> []"
        proof
          assume "?r = []"
          then have "re_sub match_spaces '' '' ?r = []" by (simp only: re_sub_Nil)
          with Cons show False by simp
        qed
        with ih(2) hd_dropWhile_space[of cs] Cons have "\<not> is_space d" by auto
        with ih(1) Cons show ?thesis by simp
      qed
      show ?thesis
        using True Cons c ih(3) sub by (auto simp: spaces_step_space)
    qed
  qed
qed

lemma collapse_identity:
  "collapsed s \<Longrightarrow> re_sub match_spaces '' '' s = s"
proof (induction s rule: collapsed.induct)
  case 1
  show ?case by (rule re_sub_Nil)
next
  case (2 c)
  show ?case
  proof (cases "is_space c")
    case True
    with 2 show ?thesis by (simp add: spaces_step_space re_sub_Nil)
  next
    case False
    then show ?thesis by (simp add: spaces_step_other re_sub_Nil)
  qed
next
  case (3 c d s)
  then have ih: "re_sub match_spaces '' '' (d # s) = d # s" by simp
  show ?case
  proof (cases "is_space c")
    case True
    with 3 have "c = CHR '' ''" "\<not> is_space d" by simp_all
    then show ?thesis using True ih by (simp add: spaces_step_space)
  next
    case False
    then show ?thesis using ih by (simp add: spaces_step_other)
  qed
qed


lemma collapsed_tl: "collapsed (c # s) \<Longrightarrow> collapsed s"
  by (cases s) simp_all

lemma collapsed_suffix: "collapsed (a @ b) \<Longrightarrow> collapsed b"
  by (induction a) (auto dest: collapsed_tl)

lemma collapsed_prefix: "collapsed (a @ b) \<Longrightarrow> collapsed a"
proof (induction a rule: collapsed.induct)
  case 1
  show ?case by simp
next
  case (2 c)
  then show ?case by (cases b) simp_all
next
  case (3 c d s)
  then show ?case by simp
qed

lemma strip_decomposition: "\<exists>a b. s = a @ strip s @ b"
proof -
  let ?t = "dropWhile is_space s"
  have "rev ?t = takeWhile is_space (rev ?t) @ dropWhile is_space (rev ?t)" by simp
  then have "?t = rev (dropWhile is_space (rev ?t)) @ rev (takeWhile is_space (rev ?t))"
    by (metis rev_append rev_rev_ident)
  then have "s = takeWhile is_space s @ strip s @ rev (takeWhile is_space (rev ?t))"
    unfolding strip_def by (metis takeWhile_dropWhile_id)
  then show ?thesis by blast
qed

lemma set_strip: "set (strip s) \<subseteq> set s"
  using strip_decomposition[of s] by (metis Un_iff set_append subsetI)

lemma collapsed_strip: "collapsed s \<Longrightarrow> collapsed (strip s)"
  using strip_decomposition[of s] by (metis collapsed_prefix collapsed_suffix)

lemma trimmed_strip: "trimmed (strip s)"
proof (cases "strip s = []")
  case True
  then show ?thesis by (simp add: trimmed_def)
next
  case False
  let ?t = "dropWhile is_space s"
  let ?u = "dropWhile is_space (rev ?t)"
  have u: "?u \<noteq> []" using False by (simp add: strip_def)
  then have "\<not> is_space (hd ?u)" by (rule hd_dropWhile)
  then have l: "\<not> is_space (last (strip s))" using u by (simp add: strip_def last_rev)
  have t: "?t \<noteq> []"
  proof
    assume e: "?t = []"
    have "?u = []" unfolding e by simp
    with u show False by blast
  qed
  then have ht: "\<not> is_space (hd ?t)" by (rule hd_dropWhile)
  have "rev ?t = takeWhile is_space (rev ?t) @ ?u" by simp
  then have "?t = rev ?u @ rev (takeWhile is_space (rev ?t))"
    by (metis rev_append rev_rev_ident)
  then have "hd ?t = hd (rev ?u)" using u by (metis hd_append2 rev_is_Nil_conv)
  with ht have "\<not> is_space (hd (strip s))" by (simp add: strip_def)
  with l show ?thesis by (simp add: trimmed_def)
qed

lemma strip_identity: "trimmed s \<Longrightarrow> strip s = s"
proof (cases s)
  case Nil
  then show ?thesis by (simp add: strip_def)
next
  case (Cons c cs)
  assume "trimmed s"
  with Cons have h: "\<not> is_space c" and l: "\<not> is_space (last (c # cs))"
    by (simp_all add: trimmed_def)
  have "dropWhile is_space (c # cs) = c # cs" using h by simp
  moreover have "dropWhile is_space (rev (c # cs)) = rev (c # cs)"
    using l by (metis dropWhile_eq_self_iff hd_rev list.distinct(1) rev_is_Nil_conv)
  ultimately show ?thesis using Cons by (simp add: strip_def)
qed

lemma split_ws_Nil: "split_ws [] = []"
  by (subst split_ws.simps) simp

lemma split_ws_word:
  "\<not> is_space c \<Longrightarrow>
   split_ws (c # cs) = (c # takeWhile (\<lambda>x. \<not> is_space x) cs) # split_ws (dropWhile (\<lambda>x. \<not> is_space x) cs)"
  by (subst split_ws.simps) simp

lemma split_ws_dropWhile: "split_ws (dropWhile is_space s) = split_ws s"
proof -
  have "split_ws (dropWhile is_space s) =
      (case dropWhile is_space (dropWhile is_space s) of
         [] \<Rightarrow> []
       | c # cs \<Rightarrow> takeWhile (\<lambda>x. \<not> is_space x) (c # cs) # split_ws (dropWhile (\<lambda>x. \<not> is_space x) cs))"
    by (rule split_ws.simps)
  also have "dropWhile is_space (dropWhile is_space s) = dropWhile is_space s"
    by (rule dropWhile_idem)
  also have "(case dropWhile is_space s of
         [] \<Rightarrow> []
       | c # cs \<Rightarrow> takeWhile (\<lambda>x. \<not> is_space x) (c # cs) # split_ws (dropWhile (\<lambda>x. \<not> is_space x) cs))
       = split_ws s"
    by (rule split_ws.simps[symmetric])
  finally show ?thesis .
qed

lemma split_join:
  "collapsed s \<Longrightarrow> trimmed s \<Longrightarrow>
     join '' '' (split_ws s) = s \<and> [] \<notin> set (split_ws s) \<and> (s \<noteq> [] \<longrightarrow> split_ws s \<noteq> [])"
proof (induction s rule: length_induct)
  case (1 s)
  show ?case
  proof (cases s)
    case Nil
    then show ?thesis by (simp add: split_ws_Nil)
  next
    case (Cons c cs)
    with 1(3) have c: "\<not> is_space c" and l: "\<not> is_space (last s)"
      by (simp_all add: trimmed_def)
    let ?w = "c # takeWhile (\<lambda>x. \<not> is_space x) cs"
    let ?r = "dropWhile (\<lambda>x. \<not> is_space x) cs"
    have s: "s = ?w @ ?r" using Cons by simp
    have sp: "split_ws s = ?w # split_ws ?r" using Cons c by (simp add: split_ws_word)
    show ?thesis
    proof (cases ?r)
      case Nil
      have a: "split_ws ?r = []" unfolding Nil by (rule split_ws_Nil)
      have b: "s = ?w" using s unfolding Nil by simp
      have "split_ws s = [?w]" using sp unfolding a .
      then show ?thesis using b by simp
    next
      case r: (Cons d r')
      have d: "is_space d" using hd_dropWhile[of "\<lambda>x. \<not> is_space x" cs] r by auto
      have cr: "collapsed (d # r')" using 1(2) collapsed_suffix[of ?w ?r] s r by simp
      have ne: "r' \<noteq> []"
      proof
        assume "r' = []"
        then have "last s = d" using s r by (metis last_appendR last.simps list.distinct(1))
        with l d show False by simp
      qed
      from cr d ne have dsp: "d = CHR '' ''" and hr: "\<not> is_space (hd r')"
        by (cases r'; simp)+
      have "last r' = last s" using s r ne by (metis last_appendR last_ConsR list.distinct(1))
      with l hr ne have tr: "trimmed r'" by (simp add: trimmed_def)
      have cr': "collapsed r'" using cr by (rule collapsed_tl)
      have "length r' < length s" using s r by (metis length_append length_Cons less_add_Suc2 trans_less_add2 lessI)
      with 1(1) cr' tr have ih: "join '' '' (split_ws r') = r'" "[] \<notin> set (split_ws r')"
        "split_ws r' \<noteq> []"
        using ne by blast+
      have "split_ws ?r = split_ws r'"
        using split_ws_dropWhile[of "d # r'"] hr ne d r
        by (cases r') simp_all
      then have sp': "split_ws s = ?w # split_ws r'" using sp by simp
      obtain v vs where v: "split_ws r' = v # vs" using ih(3) by (cases "split_ws r'") auto
      have "join '' '' (split_ws s) = ?w @ '' '' @ join '' '' (split_ws r')"
        unfolding sp' v by simp
      also have "\<dots> = ?w @ d # r'" using ih(1) dsp by simp
      also have "\<dots> = s" using s r by simp
      finally show ?thesis using sp' ih(2) by simp
    qed
  qed
qed

lemma join_head:
  assumes "[] \<notin> set (w # rest)"
  shows "(if join sep rest \<noteq> [] then w @ sep @ join sep rest else w) = join sep (w # rest)"
proof (cases rest)
  case Nil
  then show ?thesis by simp
next
  case (Cons v vs)
  then have "v \<noteq> []" using assms by auto
  then have "join sep (v # vs) \<noteq> []" by (cases vs) simp_all
  then show ?thesis using Cons by simp
qed


lemma match_lit_ci_prefix:
  assumes "match_lit_ci pat t = Some r"
  shows "prefix pat (lower t)"
proof -
  from assms have "lower (take (length pat) t) = pat"
    by (simp add: match_lit_ci_def split: if_splits)
  then have "take (length pat) (lower t) = pat" by (simp add: lower_def take_map)
  then show ?thesis by (metis take_is_prefix)
qed

lemma suffix_lower: "suffix t s \<Longrightarrow> suffix (lower t) (lower s)"
  by (auto simp: suffix_def lower_def)

lemma review_at_suffix:
  assumes "match_lit_ci ''review'' t = Some r" "suffix t s"
  shows "sublist ''review'' (lower s)"
proof -
  have "prefix ''review'' (lower t)" by (rule match_lit_ci_prefix[OF assms(1)])
  then have "sublist ''review'' (lower t)" by (rule prefix_imp_sublist)
  moreover have "sublist (lower t) (lower s)"
    using suffix_lower[OF assms(2)] by (rule suffix_imp_sublist)
  ultimately show ?thesis by (rule sublist_order.order.trans)
qed

lemma match_review_needs_review:
  assumes "match_review s = Some r"
  shows "sublist ''review'' (lower s)"
proof -
  let ?s1 = "dropWhile is_space s"
  have s1: "suffix ?s1 s" by (rule suffix_dropWhile)
  show ?thesis
  proof (cases "match_lit_ci ''review'' ?s1")
    case (Some a)
    then show ?thesis using review_at_suffix[OF Some s1] by simp
  next
    case None
    with assms obtain s2 a where s2: "match_lit_ci ''hands-on'' ?s1 = Some s2"
      and a: "match_lit_ci ''review'' (dropWhile is_space s2) = Some a"
      by (auto simp: match_review_def Let_def split: option.splits)
    from s2 have "s2 = drop (length ''hands-on'') ?s1"
      unfolding match_lit_ci_def by (metis option.distinct(1) option.inject)
    then have "suffix s2 ?s1" by (simp only: suffix_drop)
    then have "suffix (dropWhile is_space s2) s"
      using s1 suffix_dropWhile[of is_space s2] by (meson suffix_order.trans)
    from review_at_suffix[OF a this] show ?thesis .
  qed
qed

lemma remove_review_identity:
  assumes "\<not> sublist ''review'' (lower s)"
  shows "re_sub match_review repl s = s"
proof (rule re_sub_identity)
  fix t assume t: "suffix t s"
  show "match_review t = None"
  proof (rule ccontr)
    assume "match_review t \<noteq> None"
    then obtain r where "match_review t = Some r" by auto
    then have "sublist ''review'' (lower t)" by (rule match_review_needs_review)
    moreover have "sublist (lower t) (lower s)"
      using suffix_lower[OF t] by (rule suffix_imp_sublist)
    ultimately have "sublist ''review'' (lower s)" by (rule sublist_order.order.trans)
    with assms show False by simp
  qed
qed

lemma remove_parens_identity:
  assumes "CHR ''('' \<notin> set s"
  shows "re_sub match_parens repl s = s"
proof (rule re_sub_identity)
  fix t assume "suffix t s"
  then have "set t \<subseteq> set s" by (rule set_mono_suffix)
  with assms have "CHR ''('' \<notin> set t" by auto
  then show "match_parens t = None"
    by (cases t) (auto simp: match_parens_def)
qed

lemma amp_identity:
  "CHR ''&'' \<notin> set s \<Longrightarrow> concat (map (\<lambda>c. if c = CHR ''&'' then ''and'' else [c]) s) = s"
  by (induction s) auto

lemma collapse_collapsed: "collapsed (re_sub match_spaces '' '' s)"
  by (rule collapse_result[THEN conjunct1])

lemma collapse_set: "set (re_sub match_spaces '' '' s) \<subseteq> insert CHR '' '' (set s)"
  by (rule collapse_result[THEN conjunct2, THEN conjunct2])

lemma clean_name_props:
  "collapsed (clean_name_of x) \<and> trimmed (clean_name_of x) \<and> (\<forall>c \<in> set (clean_name_of x). allowed c)"
proof -
  define c3 where "c3 = concat (map (\<lambda>c. if c = CHR ''&'' then ''and'' else [c])
         (re_sub match_parens [] (re_sub match_review [] x)))"
  define c4 where "c4 = filter (\<lambda>c. is_word c \<or> is_space c \<or> c = CHR ''-'') c3"
  have cn: "clean_name_of x = strip (re_sub match_spaces '' '' c4)"
    unfolding clean_name_of_def Let_def c4_def c3_def ..
  have a4: "allowed c" if "c \<in> set c4" for c
    using that unfolding c4_def allowed_def by simp
  have sp: "allowed CHR '' ''" by (simp add: allowed_def is_space_def)
  have a5: "allowed c" if "c \<in> set (re_sub match_spaces '' '' c4)" for c
  proof -
    from that collapse_set[of c4] have "c = CHR '' '' \<or> c \<in> set c4" by blast
    then show ?thesis using a4 sp by blast
  qed
  have a6: "\<forall>c \<in> set (clean_name_of x). allowed c"
  proof
    fix c assume "c \<in> set (clean_name_of x)"
    then have "c \<in> set (re_sub match_spaces '' '' c4)"
      unfolding cn using set_strip[of "re_sub match_spaces '' '' c4"] by blast
    then show "allowed c" by (rule a5)
  qed
  have c: "collapsed (clean_name_of x)"
    unfolding cn by (rule collapsed_strip[OF collapse_collapsed])
  have t: "trimmed (clean_name_of x)" unfolding cn by (rule trimmed_strip)
  from c t a6 show ?thesis by (intro conjI)
qed

lemma clean_name_fixed_point:
  assumes "collapsed s" "trimmed s" "\<forall>c \<in> set s. allowed c" "\<not> sublist ''review'' (lower s)"
  shows "clean_name_of s = s"
proof -
  have "\<not> allowed CHR ''(''" "\<not> allowed CHR ''&''"
    by (simp_all add: allowed_def is_word_def is_space_def)
  with assms(3) have np: "CHR ''('' \<notin> set s" and na: "CHR ''&'' \<notin> set s"
    by blast+
  have f: "filter (\<lambda>c. is_word c \<or> is_space c \<or> c = CHR ''-'') s = s"
    using assms(3) by (simp add: allowed_def)
  show ?thesis
    unfolding clean_name_of_def Let_def
    by (simp only: remove_review_identity[OF assms(4)] remove_parens_identity[OF np]
          amp_identity[OF na] f collapse_identity[OF assms(1)] strip_identity[OF assms(2)])
qed

text \<open>Code points above U+007F: \<open>\w\<close> keeps the letter U+00E9, \<open>\s\<close> takes the
  no-break space U+00A0 for whitespace, and \<open>str.lower\<close> maps U+00C9 to U+00E9.\<close>

lemma latin1_characters:
  "clean_name_of (''Caf'' @ [CHR 0xE9, CHR 0xA0] @ ''Phone (2024)'') = ''Caf'' @ [CHR 0xE9] @ '' Phone'' \<and>
   lower [CHR 0xC9, CHR ''A'', CHR 0xD7] = [CHR 0xE9, CHR ''a'', CHR 0xD7]"
  by code_simp

text \<open>
  C7, as stated, fails. The brand table changes the case of the first word in
  \<open>display_name\<close> but not in \<open>safe_name\<close>; a name without any word gives the display
  name \<open>Unknown\<close> and an empty safe name; and removing a review phrase can leave a new
  one behind, which the second application removes.
\<close>

theorem clean_phone_name_idempotence_counterexample:
  "safe_name (clean_phone_name ''samsung galaxy s24 review'') = ''samsung galaxy s24'' \<and>
   safe_name (clean_phone_name (display_name (clean_phone_name ''samsung galaxy s24 review''))) =
     ''Samsung galaxy s24'' \<and>
   safe_name (clean_phone_name ''Review'') = [] \<and>
   safe_name (clean_phone_name (display_name (clean_phone_name ''Review''))) = ''Unknown'' \<and>
   safe_name (clean_phone_name ''a rereviewview b'') = ''a b'' \<and>
   display_name (clean_phone_name ''a rereviewview b'') = ''a review b'' \<and>
   safe_name (clean_phone_name (display_name (clean_phone_name ''a rereviewview b''))) = ''ab''"
  by code_simp

text \<open>
  C7, amended: for every phone name made of code points up to U+00FF, when the cleaned
  name is not empty, holds no \<open>review\<close> in any letter case, and its first word is left
  as it is by the brand table, the display name is the cleaned name and applying
  \<open>clean_phone_name\<close> to it yields the same \<open>safe_name\<close>. (Above U+00FF the claim
  would need more: \<open>re.IGNORECASE\<close> lets U+0131 match the \<open>i\<close> of \<open>review\<close>, which
  \<open>str.lower\<close> does not show.)
\<close>

theorem clean_phone_name_stable_on_display_name:
  assumes ne: "clean_name_of x \<noteq> []"
    and br: "brand (clean_phone_name x) = hd (split_ws (clean_name_of x))"
    and nr: "\<not> contains ''review'' (lower (clean_name_of x))"
  shows "display_name (clean_phone_name x) = clean_name_of x \<and>
         safe_name (clean_phone_name (display_name (clean_phone_name x))) =
           safe_name (clean_phone_name x)"
proof -
  let ?c = "clean_name_of x"
  note p = clean_name_props[of x]
  from split_join[of ?c] p ne have j: "join '' '' (split_ws ?c) = ?c"
    and nw: "[] \<notin> set (split_ws ?c)" and sw: "split_ws ?c \<noteq> []"
    by blast+
  obtain w rest where w: "split_ws ?c = w # rest" using sw by (cases "split_ws ?c") auto
  have b: "brand (clean_phone_name x) = w" using br w by simp
  have "display_name (clean_phone_name x) =
      (if join '' '' rest \<noteq> [] then brand (clean_phone_name x) @ '' '' @ join '' '' rest
       else brand (clean_phone_name x))"
    using w by (simp add: clean_phone_name_def Let_def)
  also have "\<dots> = join '' '' (w # rest)"
    unfolding b using join_head[of w rest "'' ''"] nw w by simp
  also have "\<dots> = ?c" using j w by simp
  finally have d: "display_name (clean_phone_name x) = ?c" .
  have "clean_name_of ?c = ?c"
    using p nr by (intro clean_name_fixed_point) (simp_all add: contains_sublist)
  then have "safe_name (clean_phone_name ?c) = safe_name (clean_phone_name x)"
    by (simp add: clean_phone_name_def Let_def)
  with d show ?thesis by simp
qed

theorem clean_phone_name_stable_on_display_name_witness:
  "display_name (clean_phone_name ''vivo X300 Pro 5G Review'') = ''vivo X300 Pro 5G'' \<and>
   safe_name (clean_phone_name (display_name (clean_phone_name ''vivo X300 Pro 5G Review''))) =
     safe_name (clean_phone_name ''vivo X300 Pro 5G Review'')"
proof -
  have c: "clean_name_of ''vivo X300 Pro 5G Review'' = ''vivo X300 Pro 5G''"
    by code_simp
  have h1: "clean_name_of ''vivo X300 Pro 5G Review'' \<noteq> []"
    by code_simp
  have h2: "brand (clean_phone_name ''vivo X300 Pro 5G Review'') =
      hd (split_ws (clean_name_of ''vivo X300 Pro 5G Review''))"
    by code_simp
  have h3: "\<not> contains ''review'' (lower (clean_name_of ''vivo X300 Pro 5G Review''))"
    by code_simp
  from clean_phone_name_stable_on_display_name[OF h1 h2 h3]
  have a: "display_name (clean_phone_name ''vivo X300 Pro 5G Review'') =
      clean_name_of ''vivo X300 Pro 5G Review''"
    and b: "safe_name (clean_phone_name (display_name (clean_phone_name ''vivo X300 Pro 5G Review''))) =
      safe_name (clean_phone_name ''vivo X300 Pro 5G Review'')"
    by blast+
  show ?thesis
    by (intro conjI, rule trans[OF a c], rule b)
qed

section \<open>What sanitize\_filename does guarantee\<close>

text \<open>
  The other parts of C3 hold for every input: no forbidden character, at most 100
  characters, no space or dot at the start; and no space or dot at the end whenever
  the result is shorter than 100 characters, that is, whenever nothing was cut off.
\<close>

lemma trim_ends:
  "rev (dropWhile P (rev (dropWhile P s))) = [] \<or>
   (\<not> P (hd (rev (dropWhile P (rev (dropWhile P s))))) \<and>
    \<not> P (last (rev (dropWhile P (rev (dropWhile P s))))))"
proof (cases "rev (dropWhile P (rev (dropWhile P s))) = []")
  case True
  then show ?thesis by simp
next
  case False
  let ?t = "dropWhile P s"
  let ?u = "dropWhile P (rev ?t)"
  have u: "?u \<noteq> []" using False by simp
  then have "\<not> P (hd ?u)" by (rule hd_dropWhile)
  then have l: "\<not> P (last (rev ?u))" using u by (simp add: last_rev)
  have t: "?t \<noteq> []"
  proof
    assume e: "?t = []"
    have "?u = []" unfolding e by simp
    with u show False by blast
  qed
  then have ht: "\<not> P (hd ?t)" by (rule hd_dropWhile)
  have "rev ?t = takeWhile P (rev ?t) @ ?u" by simp
  then have "?t = rev ?u @ rev (takeWhile P (rev ?t))"
    by (metis rev_append rev_rev_ident)
  then have "hd ?t = hd (rev ?u)" using u by (metis hd_append2 rev_is_Nil_conv)
  with ht l show ?thesis by simp
qed

lemma set_trim: "set (rev (dropWhile P (rev (dropWhile P s)))) \<subseteq> set s"
proof -
  have "set (dropWhile P (rev (dropWhile P s))) \<subseteq> set (rev (dropWhile P s))"
    by (rule set_dropWhileD[THEN subsetI])
  moreover have "set (dropWhile P s) \<subseteq> set s" by (rule set_dropWhileD[THEN subsetI])
  ultimately show ?thesis by auto
qed

lemma sanitize_filename_other_parts:
  "set (sanitize_filename f) \<inter> set invalid_chars = {} \<and>
   length (sanitize_filename f) \<le> 100 \<and>
   (sanitize_filename f = [] \<or>
    (hd (sanitize_filename f) \<noteq> CHR '' '' \<and> hd (sanitize_filename f) \<noteq> CHR ''.'')) \<and>
   (length (sanitize_filename f) < 100 \<longrightarrow>
    sanitize_filename f = [] \<or>
    (last (sanitize_filename f) \<noteq> CHR '' '' \<and> last (sanitize_filename f) \<noteq> CHR ''.''))"
proof -
  define f3 where "f3 = map (\<lambda>c. if c \<in> set invalid_chars then CHR ''_'' else c)
      (re_sub match_amp '' and '' (re_sub match_review '' '' f))"
  define f4 where "f4 = strip (re_sub match_spaces '' '' f3)"
  define f5 where "f5 = strip_chars ''. '' f4"
  have res: "sanitize_filename f = (if length f5 > 100 then take 100 f5 else f5)"
    unfolding sanitize_filename_def Let_def f5_def f4_def f3_def ..
  have u: "CHR ''_'' \<notin> set invalid_chars" and sp: "CHR '' '' \<notin> set invalid_chars"
    by (simp_all add: invalid_chars_def)
  have s3: "set f3 \<inter> set invalid_chars = {}"
    unfolding f3_def using u by auto
  have "set f4 \<subseteq> insert CHR '' '' (set f3)"
    unfolding f4_def using set_strip collapse_set by blast
  with s3 sp have s4: "set f4 \<inter> set invalid_chars = {}" by auto
  have "set f5 \<subseteq> set f4" unfolding f5_def strip_chars_def by (rule set_trim)
  with s4 have s5: "set f5 \<inter> set invalid_chars = {}" by auto
  have "set (sanitize_filename f) \<subseteq> set f5"
    unfolding res by (auto dest: in_set_takeD)
  with s5 have a: "set (sanitize_filename f) \<inter> set invalid_chars = {}" by auto
  have b: "length (sanitize_filename f) \<le> 100" unfolding res by simp
  have e5: "f5 = [] \<or> \<not> (hd f5 \<in> set ''. '')"
    unfolding f5_def strip_chars_def using trim_ends[of "\<lambda>c. c \<in> set ''. ''" f4] by blast
  have "sanitize_filename f = [] \<or> hd (sanitize_filename f) = hd f5"
    unfolding res by (cases f5) auto
  moreover have "sanitize_filename f \<noteq> [] \<longrightarrow> f5 \<noteq> []" unfolding res by auto
  ultimately have c: "sanitize_filename f = [] \<or>
    (hd (sanitize_filename f) \<noteq> CHR '' '' \<and> hd (sanitize_filename f) \<noteq> CHR ''.'')"
    using e5 by auto
  have l5: "f5 = [] \<or> \<not> (last f5 \<in> set ''. '')"
    unfolding f5_def strip_chars_def using trim_ends[of "\<lambda>c. c \<in> set ''. ''" f4] by blast
  have d: "length (sanitize_filename f) < 100 \<longrightarrow>
    sanitize_filename f = [] \<or>
    (last (sanitize_filename f) \<noteq> CHR '' '' \<and> last (sanitize_filename f) \<noteq> CHR ''.'')"
  proof
    assume "length (sanitize_filename f) < 100"
    then have "sanitize_filename f = f5" unfolding res by (auto split: if_splits)
    with l5 show "sanitize_filename f = [] \<or>
      (last (sanitize_filename f) \<noteq> CHR '' '' \<and> last (sanitize_filename f) \<noteq> CHR ''.'')"
      by auto
  qed
  from a b c d show ?thesis by (intro conjI)
qed

end
